theory Spec2Isabelle
  imports Complex_Main
begin

unbundle bit_operations_syntax

section \<open>JavaScript numbers\<close>

text \<open>
  The program is TypeScript. Its numbers are IEEE doubles; the model reads integer-valued
  numbers (ticks, timestamps, MIDI bytes, array indices) as \<open>int\<close> and all other
  numbers (samples, seconds, frequencies) as exact \<open>real\<close>s. The three values a double
  has beyond the reals are kept where the code can produce them: the result of a division
  is a \<open>jsnumber\<close>.
\<close>

datatype jsnumber = Fin real | PosInfinity | NegInfinity | NaN

text \<open>\<open>x / y\<close> on two finite doubles: a zero divisor gives an infinity or NaN.\<close>

definition js_div :: "real \<Rightarrow> real \<Rightarrow> jsnumber" where
  "js_div x y =
     (if y \<noteq> 0 then Fin (x / y)
      else if 0 < x then PosInfinity
      else if x < 0 then NegInfinity
      else NaN)"

text \<open>\<open>Math.round\<close>: the nearest integer, a tie going up.\<close>

definition js_round :: "real \<Rightarrow> int" where
  "js_round x = \<lfloor>x + 1 / 2\<rfloor>"

text \<open>\<open>ToInt32\<close>, which every bitwise operator applies to its operands.\<close>

definition toInt32 :: "int \<Rightarrow> int" where
  "toInt32 x = (x + 2 ^ 31) mod 2 ^ 32 - 2 ^ 31"

section \<open>services/audioService.ts: the MIDI encoder\<close>

subsection \<open>writeVarInt\<close>

text \<open>
  The first loop of \<open>writeVarInt\<close>:
  \<^verbatim>\<open>while ((value >>= 7) > 0) { buffer <<= 8; buffer |= 0x80; buffer += value & 0x7f; }\<close>
\<close>

function varIntPack :: "int \<Rightarrow> int \<Rightarrow> int" where
  "varIntPack v buffer =
     (let v' = drop_bit 7 (toInt32 v) in
      if v' > 0
      then varIntPack v' ((toInt32 (push_bit 8 (toInt32 buffer)) OR 0x80) + (toInt32 v' AND 0x7f))
      else buffer)"
  by pat_completeness auto
termination
proof (relation "measure (\<lambda>(v, b). nat (toInt32 v))", goal_cases)
  case 1
  show ?case by simp
next
  case (2 v buffer x)
  define w where "w = toInt32 v"
  have r: "- (2 ^ 31) \<le> w" "w < 2 ^ 31"
    unfolding w_def toInt32_def by simp_all
  from 2 have p: "0 < w div 128" by (simp add: w_def drop_bit_eq_div)
  then have big: "128 \<le> w" by linarith
  have "w div 128 < 2 ^ 31" using r by linarith
  then have "toInt32 (w div 128) = w div 128"
    using p by (simp add: toInt32_def)
  moreover have "w div 128 < w" using big by linarith
  ultimately show ?case using 2 big by (simp add: w_def drop_bit_eq_div)
qed

declare varIntPack.simps [simp del]

text \<open>
  The second loop, which has no bound of its own:
  \<^verbatim>\<open>while (true) { data.push(buffer & 0xff); if (buffer & 0x80) buffer >>= 8; else break; }\<close>
  \<open>None\<close> is a loop that never leaves.
\<close>

partial_function (option) varIntEmit :: "int \<Rightarrow> int list \<Rightarrow> int list option" where
  "varIntEmit buffer data =
     (if toInt32 buffer AND 0x80 \<noteq> 0
      then varIntEmit (drop_bit 8 (toInt32 buffer)) (data @ [toInt32 buffer AND 0xff])
      else Some (data @ [toInt32 buffer AND 0xff]))"

declare varIntEmit.simps [code]

definition writeVarInt :: "int list \<Rightarrow> int \<Rightarrow> int list option" where
  "writeVarInt data v = varIntEmit (varIntPack v (toInt32 v AND 0x7f)) data"

subsection \<open>generateMidiFile\<close>

record MidiNote =
  noteNumber :: int
  velocity :: int
  startTime :: real
  duration :: real

datatype MidiEventType = NoteOn | NoteOff

record MidiEvent =
  evType :: MidiEventType
  evNote :: int
  evVelocity :: int
  time :: int

definition TICKS_PER_BEAT :: int where
  "TICKS_PER_BEAT = 480"

definition secondsPerTick :: "real \<Rightarrow> real" where
  "secondsPerTick bpm = (60 / bpm) / real_of_int TICKS_PER_BEAT"

text \<open>
  \<open>Math.round(t / secondsPerTick)\<close>. At \<open>bpm = 0\<close> the double \<open>60 / bpm\<close> is
  \<open>Infinity\<close> and every finite \<open>t\<close> divided by it is 0. The quotient is the exact one:
  the code rounds \<open>secondsPerTick\<close> and the quotient to doubles before \<open>Math.round\<close>, so
  next to a half it can give the neighbouring tick (0.1875 s at 75 BPM is tick 112 in the
  code and 113 here). A property that depends on the value of a tick is therefore stated
  for any array of events, with \<open>encodeEvents\<close> below.
\<close>

definition tickOf :: "real \<Rightarrow> real \<Rightarrow> int" where
  "tickOf bpm t = (if bpm = 0 then 0 else js_round (t / secondsPerTick bpm))"

definition noteEvents :: "real \<Rightarrow> MidiNote \<Rightarrow> MidiEvent list" where
  "noteEvents bpm n =
     [\<lparr>evType = NoteOn, evNote = noteNumber n, evVelocity = velocity n,
       time = tickOf bpm (startTime n)\<rparr>,
      \<lparr>evType = NoteOff, evNote = noteNumber n, evVelocity = 0,
       time = tickOf bpm (startTime n + duration n)\<rparr>]"

text \<open>\<open>notes.forEach\<close> pushing both events of each note, in the order of the input.\<close>

definition collectEvents :: "real \<Rightarrow> MidiNote list \<Rightarrow> MidiEvent list" where
  "collectEvents bpm notes = concat (map (noteEvents bpm) notes)"

text \<open>
  \<open>events.sort((a, b) => a.time - b.time)\<close>: \<open>Array.prototype.sort\<close> is stable, as
  the insertion sort \<open>sort_key\<close> is.
\<close>

definition sortEvents :: "MidiEvent list \<Rightarrow> MidiEvent list" where
  "sortEvents events = sort_key time events"

text \<open>
  \<open>events.forEach\<close> writing the track: \<open>currentTime\<close> and \<open>trackData\<close> are the state.
\<close>

fun writeEvents :: "MidiEvent list \<Rightarrow> int \<Rightarrow> int list \<Rightarrow> int list option" where
  "writeEvents [] currentTime trackData = Some trackData"
| "writeEvents (event # rest) currentTime trackData =
     (case writeVarInt trackData (time event - currentTime) of
        None \<Rightarrow> None
      | Some written \<Rightarrow>
          writeEvents rest (time event)
            (written @ (if evType event = NoteOn
                        then [0x90, evNote event, evVelocity event]
                        else [0x80, evNote event, 0])))"

text \<open>\<open>DataView.setUint32\<close> and \<open>setUint16\<close>: big-endian, the value reduced to the width.\<close>

definition setUint32 :: "int \<Rightarrow> int list" where
  "setUint32 x =
     [x div 2 ^ 24 mod 256, x div 2 ^ 16 mod 256, x div 2 ^ 8 mod 256, x mod 256]"

definition setUint16 :: "int \<Rightarrow> int list" where
  "setUint16 x = [x div 2 ^ 8 mod 256, x mod 256]"

text \<open>\<open>writeString\<close>: one \<open>setUint8\<close> of each character code.\<close>

definition writeString :: "string \<Rightarrow> int list" where
  "writeString s = map (\<lambda>c. of_char c mod 256) s"

text \<open>
  The track data: every event, then \<open>writeVar(0)\<close> and the end-of-track bytes.
\<close>

definition trackBytes :: "MidiNote list \<Rightarrow> real \<Rightarrow> int list option" where
  "trackBytes notes bpm =
     (case writeEvents (sortEvents (collectEvents bpm notes)) 0 [] of
        None \<Rightarrow> None
      | Some trackData \<Rightarrow>
          (case writeVarInt trackData 0 of
             None \<Rightarrow> None
           | Some trackData' \<Rightarrow> Some (trackData' @ [0xFF, 0x2F, 0x00])))"

text \<open>
  The returned blob, as its bytes. A \<open>Uint8Array\<close> element keeps the stored number
  modulo 256. \<open>None\<close>: the call does not return.
\<close>

definition generateMidiFile :: "MidiNote list \<Rightarrow> real \<Rightarrow> int list option" where
  "generateMidiFile notes bpm =
     (case trackBytes notes bpm of
        None \<Rightarrow> None
      | Some trackData \<Rightarrow>
          Some (writeString ''MThd'' @ setUint32 6 @ setUint16 0 @ setUint16 1
                @ setUint16 TICKS_PER_BEAT
                @ writeString ''MTrk'' @ setUint32 (int (length trackData))
                @ map (\<lambda>b. b mod 256) trackData))"

text \<open>
  The values \<open>deltaTime = event.time - currentTime\<close> that \<open>events.forEach\<close> hands to
  \<open>writeVar\<close>, one for each event of the sorted array; \<open>currentTime\<close> starts at 0.
\<close>

fun deltaTimes :: "MidiEvent list \<Rightarrow> int \<Rightarrow> int list" where
  "deltaTimes [] currentTime = []"
| "deltaTimes (event # rest) currentTime =
     (time event - currentTime) # deltaTimes rest (time event)"

text \<open>
  \<open>generateMidiFile\<close> from \<open>events.sort\<close> on, as a function of the array \<open>events\<close>
  that \<open>notes.forEach\<close> has filled: the sort, the track data, the two headers and the
  copy into the \<open>Uint8Array\<close>.
\<close>

definition encodeEvents :: "MidiEvent list \<Rightarrow> int list option" where
  "encodeEvents events =
     (case writeEvents (sortEvents events) 0 [] of
        None \<Rightarrow> None
      | Some trackData \<Rightarrow>
          (case writeVarInt trackData 0 of
             None \<Rightarrow> None
           | Some trackData' \<Rightarrow>
               Some (writeString ''MThd'' @ setUint32 6 @ setUint16 0 @ setUint16 1
                     @ setUint16 TICKS_PER_BEAT
                     @ writeString ''MTrk''
                     @ setUint32 (int (length (trackData' @ [0xFF, 0x2F, 0x00])))
                     @ map (\<lambda>b. b mod 256) (trackData' @ [0xFF, 0x2F, 0x00]))))"

text \<open>
  \<open>occursBefore xs x y\<close>: somewhere in \<open>xs\<close> an element equal to \<open>x\<close> stands at an earlier
  position than an element equal to \<open>y\<close>. It is used to follow events through the sort.
\<close>

fun occursBefore :: "'a list \<Rightarrow> 'a \<Rightarrow> 'a \<Rightarrow> bool" where
  "occursBefore [] x y = False"
| "occursBefore (z # zs) x y = ((z = x \<and> y \<in> set zs) \<or> occursBefore zs x y)"

subsection \<open>Reading a variable-length quantity\<close>

text \<open>
  The program only writes variable-length quantities. \<open>vlqDecode\<close> is the reader of the
  Standard MIDI File format, stated here to compare the writer with: each byte gives seven
  bits, the most significant group first, and a set bit 7 says that another byte follows.
  It returns the value and the bytes after it, \<open>None\<close> when the bytes end too early.
\<close>

fun vlqDecode :: "int list \<Rightarrow> int \<Rightarrow> (int \<times> int list) option" where
  "vlqDecode [] acc = None"
| "vlqDecode (b # bs) acc =
     (if b AND 0x80 \<noteq> 0 then vlqDecode bs (acc * 128 + (b AND 0x7f))
      else Some (acc * 128 + (b AND 0x7f), bs))"

section \<open>components/Tools.tsx: tap tempo\<close>

text \<open>
  The component state \<open>taps\<close> and \<open>bpm\<close>; \<open>useState\<close> starts them at \<open>[]\<close> and 0.
  \<open>bpm\<close> is whatever number \<open>setBpm\<close> was last given.
\<close>

record TapState =
  taps :: "int list"
  bpm :: jsnumber

definition initialTapState :: TapState where
  "initialTapState = \<lparr>taps = [], bpm = Fin 0\<rparr>"

text \<open>\<open>Math.round\<close> of a number that may be infinite or NaN.\<close>

definition math_round :: "jsnumber \<Rightarrow> jsnumber" where
  "math_round x = (case x of Fin r \<Rightarrow> Fin (real_of_int (js_round r)) | other \<Rightarrow> other)"

text \<open>
  \<^verbatim>\<open>for (let i = 1; i < newTaps.length; i++) intervals.push(newTaps[i] - newTaps[i - 1]);\<close>
\<close>

definition tapIntervals :: "int list \<Rightarrow> int list" where
  "tapIntervals newTaps = map (\<lambda>i. newTaps ! i - newTaps ! (i - 1)) [1..<length newTaps]"

text \<open>
  \<open>intervals.reduce((a, b) => a + b, 0) / intervals.length\<close>. The quotient is the exact
  one where the code has a rounded double; the two are zero together, and differ by a
  rounding otherwise (so a BPM next to a half can come out one apart).
\<close>

definition avgInterval :: "int list \<Rightarrow> jsnumber" where
  "avgInterval intervals =
     js_div (real_of_int (fold (\<lambda>b a. a + b) intervals 0)) (real (length intervals))"

text \<open>\<open>60000 / avgInterval\<close>, the divisor being a number that may itself be NaN.\<close>

definition bpmOfInterval :: "jsnumber \<Rightarrow> jsnumber" where
  "bpmOfInterval avg =
     (case avg of
        Fin a \<Rightarrow> js_div 60000 a
      | PosInfinity \<Rightarrow> Fin 0
      | NegInfinity \<Rightarrow> Fin 0
      | NaN \<Rightarrow> NaN)"

text \<open>\<open>handleTap\<close>, with \<open>Date.now()\<close> as the argument \<open>now\<close>.\<close>

definition handleTap :: "int \<Rightarrow> TapState \<Rightarrow> TapState" where
  "handleTap now s =
     (let newTaps = filter (\<lambda>t. now - t < 3000) (taps s @ [now]) in
      if length newTaps > 1
      then \<lparr>taps = newTaps, bpm = math_round (bpmOfInterval (avgInterval (tapIntervals newTaps)))\<rparr>
      else \<lparr>taps = newTaps, bpm = bpm s\<rparr>)"

definition resetTap :: "TapState \<Rightarrow> TapState" where
  "resetTap s = \<lparr>taps = [], bpm = Fin 0\<rparr>"

text \<open>
  What the pad shows, \<^verbatim>\<open>{bpm > 0 ? bpm : '--'}\<close>: \<open>None\<close> is the two dashes that stand
  for no tempo yet.
\<close>

definition js_positive :: "jsnumber \<Rightarrow> bool" where
  "js_positive x = (case x of Fin r \<Rightarrow> 0 < r | PosInfinity \<Rightarrow> True | _ \<Rightarrow> False)"

definition shownBpm :: "TapState \<Rightarrow> jsnumber option" where
  "shownBpm s = (if js_positive (bpm s) then Some (bpm s) else None)"

section \<open>components/Tools.tsx: notes and frequencies\<close>

definition NOTES :: "string list" where
  "NOTES = [''C'', ''C#'', ''D'', ''D#'', ''E'', ''F'', ''F#'', ''G'', ''G#'', ''A'', ''A#'', ''B'']"

definition OCTAVES :: "int list" where
  "OCTAVES = [0, 1, 2, 3, 4, 5, 6, 7, 8]"

text \<open>
  \<open>noteFromPitch\<close>, \<open>frequencyFromNoteNumber\<close> and \<open>centsOffFromPitch\<close>, on a positive
  frequency. \<open>Math.log\<close> is \<open>ln\<close>, \<open>Math.pow(2, x)\<close> is \<open>2 powr x\<close>.
\<close>

definition noteFromPitch :: "real \<Rightarrow> int" where
  "noteFromPitch frequency = js_round (12 * (ln (frequency / 440) / ln 2)) + 69"

definition frequencyFromNoteNumber :: "int \<Rightarrow> real" where
  "frequencyFromNoteNumber n = 440 * 2 powr ((real_of_int n - 69) / 12)"

definition centsOffFromPitch :: "real \<Rightarrow> int \<Rightarrow> int" where
  "centsOffFromPitch frequency n =
     \<lfloor>1200 * ln (frequency / frequencyFromNoteNumber n) / ln 2\<rfloor>"

text \<open>The remainder operator \<open>%\<close>: the result has the sign of the dividend.\<close>

definition js_rem :: "int \<Rightarrow> int \<Rightarrow> int" where
  "js_rem a b = sgn a * (\<bar>a\<bar> mod \<bar>b\<bar>)"

text \<open>An array read: \<open>None\<close> is \<open>undefined\<close>, which any index outside the array gives.\<close>

definition at_index :: "'a list \<Rightarrow> int \<Rightarrow> 'a option" where
  "at_index xs i = (if 0 \<le> i \<and> i < int (length xs) then Some (xs ! nat i) else None)"

text \<open>\<open>Array.prototype.indexOf\<close>: the first position, or -1.\<close>

fun indexOf :: "'a list \<Rightarrow> 'a \<Rightarrow> int" where
  "indexOf [] x = - 1"
| "indexOf (y # ys) x =
     (if y = x then 0 else (let k = indexOf ys x in if k = - 1 then - 1 else k + 1))"

text \<open>
  The Hz to note effect, up to the text it formats: the note name, the octave and the
  cents. \<open>None\<close> is the output \<open>...\<close> for an input that is not a positive number.
\<close>

record NoteLabel =
  noteName :: "string option"
  octave :: int
  cents :: int

definition hzToNote :: "real \<Rightarrow> NoteLabel option" where
  "hzToNote hz =
     (if 0 < hz
      then (let noteNum = noteFromPitch hz in
            Some \<lparr>noteName = at_index NOTES (js_rem noteNum 12),
                  octave = noteNum div 12 - 1,
                  cents = centsOffFromPitch hz noteNum\<rparr>)
      else None)"

text \<open>
  The note to Hz effect, up to \<open>freq.toFixed(2)\<close>: the frequency of the selected note and
  the parsed octave. \<open>None\<close> is the output \<open>Invalid\<close>.
\<close>

definition noteToHz :: "string \<Rightarrow> int \<Rightarrow> real option" where
  "noteToHz selectedNote oct =
     (let noteIdx = indexOf NOTES selectedNote in
      if noteIdx \<noteq> - 1
      then (let midi = (oct + 1) * 12 + noteIdx in
            Some (440 * 2 powr ((real_of_int midi - 69) / 12)))
      else None)"

section \<open>services/audioService.ts: the pitch estimator\<close>

text \<open>
  \<open>Math.sqrt(rms / size)\<close>: the sum of the squares of the samples over their number. An
  empty frame gives \<open>0 / 0\<close>, which is NaN.
\<close>

definition sumSquares :: "real list \<Rightarrow> real" where
  "sumSquares buf = fold (\<lambda>val rms. rms + val * val) buf 0"

definition rmsOf :: "real list \<Rightarrow> jsnumber" where
  "rmsOf buf =
     (case js_div (sumSquares buf) (real (length buf)) of
        Fin q \<Rightarrow> (if q < 0 then NaN else Fin (sqrt q))
      | NegInfinity \<Rightarrow> NaN
      | other \<Rightarrow> other)"

text \<open>\<open>x < y\<close> for a number that may be infinite or NaN: every comparison with NaN is false.\<close>

definition js_less :: "jsnumber \<Rightarrow> real \<Rightarrow> bool" where
  "js_less x y = (case x of Fin r \<Rightarrow> r < y | NegInfinity \<Rightarrow> True | _ \<Rightarrow> False)"

definition thres :: real where
  "thres = 2 / 10"

text \<open>
  \<^verbatim>\<open>for (let i = 0; i < size / 2; i++) if (Math.abs(buf[i]) < thres) { r1 = i; break; }\<close>
  with \<open>r1 = 0\<close> before the loop. \<open>i < size / 2\<close> is a comparison of doubles, so it is
  \<open>2 * i < size\<close>.
\<close>

function findR1 :: "real list \<Rightarrow> nat \<Rightarrow> int" where
  "findR1 buf i =
     (if 2 * i < length buf
      then (if \<bar>buf ! i\<bar> < thres then int i else findR1 buf (i + 1))
      else 0)"
  by pat_completeness auto
termination
  by (relation "measure (\<lambda>(buf, i). length buf - i)") auto

declare findR1.simps [simp del]

text \<open>
  \<^verbatim>\<open>for (let i = 1; i < size / 2; i++) if (Math.abs(buf[size - i]) < thres) { r2 = size - i; break; }\<close>
  with \<open>r2 = size - 1\<close> before the loop.
\<close>

function findR2 :: "real list \<Rightarrow> nat \<Rightarrow> int" where
  "findR2 buf i =
     (if 2 * i < length buf
      then (if \<bar>buf ! (length buf - i)\<bar> < thres then int (length buf - i)
            else findR2 buf (i + 1))
      else int (length buf) - 1)"
  by pat_completeness auto
termination
  by (relation "measure (\<lambda>(buf, i). length buf - i)") auto

declare findR2.simps [simp del]

text \<open>
  \<open>slice(first, final)\<close> of a typed array: a negative index counts from the end, both
  are clamped to the array, and the result is empty when they cross.
\<close>

definition js_slice :: "'a list \<Rightarrow> int \<Rightarrow> int \<Rightarrow> 'a list" where
  "js_slice xs first final =
     (let n = int (length xs);
          k = (if first < 0 then max (n + first) 0 else min first n);
          e = (if final < 0 then max (n + final) 0 else min final n)
      in take (nat (e - k)) (drop (nat k) xs))"

definition trimFrame :: "real list \<Rightarrow> real list" where
  "trimFrame buf = js_slice buf (findR1 buf 0) (findR2 buf 1)"

text \<open>
  \<^verbatim>\<open>for (i < cSize) for (j < cSize - i) c[i] = c[i] + bufSlice[j] * bufSlice[j + i];\<close>
  The sums are exact here. The code accumulates doubles, and their rounding can change
  which entries of \<open>c\<close> are equal or greater; what is proved of the returned number is
  therefore stated for any array \<open>c\<close>, with \<open>pitchResult\<close> below.
\<close>

definition autocorrelate :: "real list \<Rightarrow> real list" where
  "autocorrelate bufSlice =
     map (\<lambda>i. fold (\<lambda>j ci. ci + bufSlice ! j * bufSlice ! (j + i))
                  [0..<length bufSlice - i] 0)
         [0..<length bufSlice]"

text \<open>
  \<open>x > y\<close> on two array reads: a read outside the array is \<open>undefined\<close>, which the
  comparison turns into NaN, and then it is false.
\<close>

definition js_greater :: "real option \<Rightarrow> real option \<Rightarrow> bool" where
  "js_greater x y = (case (x, y) of (Some a, Some b) \<Rightarrow> b < a | _ \<Rightarrow> False)"

text \<open>\<^verbatim>\<open>let d = 0; while (c[d] > c[d + 1]) d++;\<close>\<close>

function skipDescending :: "real list \<Rightarrow> nat \<Rightarrow> nat" where
  "skipDescending c d =
     (if js_greater (at_index c (int d)) (at_index c (int d + 1))
      then skipDescending c (d + 1)
      else d)"
  by pat_completeness auto
termination
proof (relation "measure (\<lambda>(c, d). length c - d)", goal_cases)
  case 1
  show ?case by simp
next
  case (2 c d)
  then have "int d + 1 < int (length c)"
    by (auto simp: js_greater_def at_index_def split: if_splits)
  then show ?case by simp
qed

declare skipDescending.simps [simp del]

text \<open>
  \<^verbatim>\<open>for (let i = d; i < cSize; i++) if (c[i] > maxval) { maxval = c[i]; maxpos = i; }\<close>
  with \<open>maxval = -1\<close> and \<open>maxpos = -1\<close> before the loop.
\<close>

definition peakStep :: "real list \<Rightarrow> nat \<Rightarrow> real \<times> int \<Rightarrow> real \<times> int" where
  "peakStep c =
     (\<lambda>i (maxval, maxpos). if maxval < c ! i then (c ! i, int i) else (maxval, maxpos))"

definition findPeak :: "real list \<Rightarrow> nat \<Rightarrow> real \<times> int" where
  "findPeak c d = fold (peakStep c) [d..<length c] (- 1, - 1)"

text \<open>
  The parabolic step. \<open>x1\<close>, \<open>x2\<close>, \<open>x3\<close> are array reads; if one is \<open>undefined\<close> then
  \<open>a\<close> is NaN, \<open>if (a)\<close> fails as it does for \<open>a = 0\<close>, and \<open>T0\<close> stays.
\<close>

definition refinePeriod :: "real list \<Rightarrow> int \<Rightarrow> real" where
  "refinePeriod c T0 =
     (case (at_index c (T0 - 1), at_index c T0, at_index c (T0 + 1)) of
        (Some x1, Some x2, Some x3) \<Rightarrow>
          (let a = (x1 + x3 - 2 * x2) / 2; b = (x3 - x1) / 2
           in if a \<noteq> 0 then real_of_int T0 - b / (2 * a) else real_of_int T0)
      | _ \<Rightarrow> real_of_int T0)"

text \<open>
  \<open>getPitch\<close>. \<open>correlation\<close> is the array \<open>c\<close>, \<open>peakLag\<close> the value of \<open>maxpos\<close> that
  \<open>T0\<close> starts from, and the result -1 the code's "signal too low".
\<close>

definition correlation :: "real list \<Rightarrow> real list" where
  "correlation buf = autocorrelate (trimFrame buf)"

definition peakLag :: "real list \<Rightarrow> int" where
  "peakLag buf = (let c = correlation buf; d = skipDescending c 0 in snd (findPeak c d))"

definition getPitch :: "real list \<Rightarrow> real \<Rightarrow> jsnumber" where
  "getPitch buf sampleRate =
     (if js_less (rmsOf buf) (1 / 100) then Fin (- 1)
      else js_div sampleRate (refinePeriod (correlation buf) (peakLag buf)))"

text \<open>
  The part of \<open>getPitch\<close> that follows the filling of \<open>c\<close>, as a function of the array
  \<open>c\<close> and of the outcome \<open>tooLow\<close> of the test \<open>rms < 0.01\<close>: \<open>maxposOf\<close> is the value of
  \<open>maxpos\<close> after the two loops, \<open>pitchResult\<close> the number returned.
\<close>

definition maxposOf :: "real list \<Rightarrow> int" where
  "maxposOf c = snd (findPeak c (skipDescending c 0))"

definition pitchResult :: "bool \<Rightarrow> real list \<Rightarrow> real \<Rightarrow> jsnumber" where
  "pitchResult tooLow c sampleRate =
     (if tooLow then Fin (- 1) else js_div sampleRate (refinePeriod c (maxposOf c)))"


section \<open>Properties of the MIDI encoder\<close>

subsection \<open>The encoder on an empty note list\<close>

lemma varIntPack_small: "0 \<le> v \<Longrightarrow> v < 128 \<Longrightarrow> varIntPack v b = b"
  by (subst varIntPack.simps) (simp add: toInt32_def drop_bit_eq_div)

lemma writeVarInt_zero: "writeVarInt data 0 = Some (data @ [0])"
  by (simp add: writeVarInt_def varIntPack_small varIntEmit.simps toInt32_def)

text \<open>
  C1. Encoding no notes at 120 BPM gives exactly 26 bytes: the 14-byte \<open>MThd\<close> header
  (chunk length 6, format 0, one track, division 480 = 0x01E0), the 8-byte \<open>MTrk\<close> header
  whose length field is 4, and the four track bytes 00 FF 2F 00.
\<close>

theorem generateMidiFile_empty:
  "generateMidiFile [] 120 =
     Some ([0x4D, 0x54, 0x68, 0x64, 0, 0, 0, 6, 0, 0, 0, 1, 0x01, 0xE0]
           @ [0x4D, 0x54, 0x72, 0x6B, 0, 0, 0, 4]
           @ [0x00, 0xFF, 0x2F, 0x00])
   \<and> length (the (generateMidiFile [] 120)) = 26"
  by (simp add: generateMidiFile_def trackBytes_def collectEvents_def sortEvents_def
      writeVarInt_zero writeString_def setUint32_def setUint16_def TICKS_PER_BEAT_def)

subsection \<open>Variable-length quantities\<close>

lemma toInt32_id: "- (2 ^ 31) \<le> x \<Longrightarrow> x < 2 ^ 31 \<Longrightarrow> toInt32 x = x"
  by (simp add: toInt32_def)

lemma and_127: "(x::int) AND 127 = x mod 128"
  using take_bit_eq_mask[of 7 x] by (simp add: take_bit_eq_mod mask_eq_exp_minus_1)

lemma and_255: "(x::int) AND 255 = x mod 256"
  using take_bit_eq_mask[of 8 x] by (simp add: take_bit_eq_mod mask_eq_exp_minus_1)

lemma and_128_iff: "((x::int) AND 128 \<noteq> 0) = odd (x div 128)"
  using and_exp_eq_0_iff_not_bit[of x 7] by (simp add: bit_iff_odd)

lemma shift_or_128: "push_bit 8 (b::int) OR 128 = b * 256 + 128"
proof -
  have "push_bit (Suc n) b AND push_bit n (1::int) = 0" for n
    by (rule bit_eqI) (auto simp: bit_simps bit_0)
  from this [of 7] have "push_bit 8 b AND (128::int) = 0" by simp
  then have "push_bit 8 b + 128 = push_bit 8 b OR 128"
    by (rule disjunctive_add_eq_or)
  then show ?thesis by (simp add: push_bit_eq_mult)
qed

lemma pack_step:
  assumes "0 \<le> b" "b < 2 ^ 23" "0 \<le> g" "g < 2 ^ 31"
  shows "(toInt32 (push_bit 8 (toInt32 b)) OR 0x80) + (toInt32 g AND 0x7f) = b * 256 + 128 + g mod 128"
proof -
  have "toInt32 b = b" using assms by (simp add: toInt32_id)
  moreover have "toInt32 (push_bit 8 b) = push_bit 8 b"
    using assms by (simp add: toInt32_id push_bit_eq_mult)
  moreover have "toInt32 g = g" using assms by (simp add: toInt32_id)
  ultimately show ?thesis by (simp add: shift_or_128 and_127)
qed

lemma emit_last:
  assumes "0 \<le> g" "g < 128"
  shows "varIntEmit g data = Some (data @ [g])"
proof -
  have "toInt32 g = g" using assms by (simp add: toInt32_id)
  then show ?thesis using assms
    by (subst varIntEmit.simps) (simp add: and_128_iff and_255)
qed

lemma emit_more:
  assumes "0 \<le> b" "b < 2 ^ 23" "0 \<le> g" "g < 128"
  shows "varIntEmit (b * 256 + 128 + g) data = varIntEmit b (data @ [128 + g])"
proof -
  have "toInt32 (b * 256 + 128 + g) = b * 256 + 128 + g"
    using assms by (simp add: toInt32_id)
  moreover have "(b * 256 + 128 + g) div 128 = 2 * b + 1" using assms by linarith
  moreover have "(b * 256 + 128 + g) mod 256 = 128 + g"
  proof -
    have "(b * 256 + 128 + g) mod 256 = ((128 + g) + b * 256) mod 256" by (simp add: ac_simps)
    also have "\<dots> = (128 + g) mod 256" by (rule mod_mult_self1)
    also have "\<dots> = 128 + g" using assms by simp
    finally show ?thesis .
  qed
  moreover have "(b * 256 + 128 + g) div 256 = b" using assms by linarith
  ultimately show ?thesis using assms
    by (subst varIntEmit.simps) (simp add: and_128_iff and_255 drop_bit_eq_div)
qed

lemma writeVarInt_1:
  assumes "0 \<le> v" "v < 2 ^ 7"
  shows "writeVarInt data v = Some (data @ [v])"
proof -
  have "toInt32 v = v" using assms by (simp add: toInt32_id)
  then show ?thesis using assms
    by (simp add: writeVarInt_def varIntPack_small and_127 emit_last)
qed

lemma pack_next:
  assumes "0 \<le> v" "v < 2 ^ 31" "0 \<le> b" "b < 2 ^ 23"
  shows "varIntPack v b = (if 128 \<le> v then varIntPack (v div 128) (b * 256 + 128 + v div 128 mod 128) else b)"
proof -
  have "toInt32 v = v" using assms by (simp add: toInt32_id)
  moreover have "0 \<le> v div 128" "v div 128 < 2 ^ 31" using assms by simp_all
  moreover have "(0 < v div 128) = (128 \<le> v)" using assms by linarith
  ultimately show ?thesis using assms
    by (subst varIntPack.simps) (simp add: Let_def drop_bit_eq_div pack_step)
qed

lemma writeVarInt_2:
  assumes "2 ^ 7 \<le> v" "v < 2 ^ 14"
  shows "writeVarInt data v = Some (data @ [128 + v div 128, v mod 128])"
proof -
  have "toInt32 v = v" using assms by (simp add: toInt32_id)
  moreover have "v div 128 < 128" using assms by simp
  moreover have "0 \<le> v div 128" using assms by simp
  moreover have "varIntPack v (v mod 128) = varIntPack (v div 128) (v mod 128 * 256 + 128 + v div 128 mod 128)"
    using assms by (subst pack_next) simp_all
  ultimately show ?thesis using assms
    by (simp add: writeVarInt_def and_127 varIntPack_small emit_more emit_last)
qed

lemma emit_2:
  assumes "0 \<le> g0" "g0 < 128" "0 \<le> g1" "g1 < 128"
  shows "varIntEmit (g0 * 256 + 128 + g1) data = Some (data @ [128 + g1, g0])"
proof -
  have "varIntEmit (g0 * 256 + 128 + g1) data = varIntEmit g0 (data @ [128 + g1])"
    by (rule emit_more) (use assms in simp_all)
  then show ?thesis using assms by (simp only: emit_last append_assoc append.simps)
qed

lemma emit_3:
  assumes "0 \<le> g0" "g0 < 128" "0 \<le> g1" "g1 < 128" "0 \<le> g2" "g2 < 128"
  shows "varIntEmit ((g0 * 256 + 128 + g1) * 256 + 128 + g2) data
           = Some (data @ [128 + g2, 128 + g1, g0])"
proof -
  have "varIntEmit ((g0 * 256 + 128 + g1) * 256 + 128 + g2) data
          = varIntEmit (g0 * 256 + 128 + g1) (data @ [128 + g2])"
    by (rule emit_more) (use assms in simp_all)
  then show ?thesis using assms by (simp only: emit_2 append_assoc append.simps)
qed

lemma emit_4:
  assumes "0 \<le> g0" "g0 < 128" "0 \<le> g1" "g1 < 128" "0 \<le> g2" "g2 < 128"
    "0 \<le> g3" "g3 < 128"
  shows "varIntEmit (((g0 * 256 + 128 + g1) * 256 + 128 + g2) * 256 + 128 + g3) data
           = Some (data @ [128 + g3, 128 + g2, 128 + g1, g0])"
proof -
  have "varIntEmit (((g0 * 256 + 128 + g1) * 256 + 128 + g2) * 256 + 128 + g3) data
          = varIntEmit ((g0 * 256 + 128 + g1) * 256 + 128 + g2) (data @ [128 + g3])"
    by (rule emit_more) (use assms in simp_all)
  then show ?thesis using assms by (simp only: emit_3 append_assoc append.simps)
qed

lemma writeVarInt_3:
  assumes "2 ^ 14 \<le> v" "v < 2 ^ 21"
  shows "writeVarInt data v =
           Some (data @ [128 + v div 128 div 128, 128 + v div 128 mod 128, v mod 128])"
proof -
  define g0 where "g0 = v mod 128"
  define g1 where "g1 = v div 128 mod 128"
  define g2 where "g2 = v div 128 div 128"
  have g: "0 \<le> g0" "g0 < 128" "0 \<le> g1" "g1 < 128" "0 \<le> g2" "g2 < 128"
    using assms by (simp_all add: g0_def g1_def g2_def)
  have big: "128 \<le> v" "128 \<le> v div 128" using assms by simp_all
  have small: "v < 2 ^ 31" "v div 128 < 2 ^ 31" using assms by simp_all
  have "toInt32 v = v" using assms by (simp add: toInt32_id)
  then have "writeVarInt data v = varIntEmit (varIntPack v g0) data"
    by (simp add: writeVarInt_def and_127 g0_def)
  also have "varIntPack v g0 = varIntPack (v div 128) (g0 * 256 + 128 + g1)"
    using g big small by (subst pack_next) (simp_all add: g1_def)
  also have "\<dots> = varIntPack g2 ((g0 * 256 + 128 + g1) * 256 + 128 + g2)"
    using g big small by (subst pack_next) (simp_all add: g2_def)
  also have "\<dots> = (g0 * 256 + 128 + g1) * 256 + 128 + g2"
    using g by (rule_tac varIntPack_small)
  also have "varIntEmit \<dots> data = Some (data @ [128 + g2, 128 + g1, g0])"
    using g by (rule emit_3)
  finally show ?thesis by (simp only: g0_def g1_def g2_def)
qed

lemma writeVarInt_4:
  assumes "2 ^ 21 \<le> v" "v < 2 ^ 28"
  shows "writeVarInt data v =
           Some (data @ [128 + v div 128 div 128 div 128, 128 + v div 128 div 128 mod 128,
                         128 + v div 128 mod 128, v mod 128])"
proof -
  define g0 where "g0 = v mod 128"
  define g1 where "g1 = v div 128 mod 128"
  define g2 where "g2 = v div 128 div 128 mod 128"
  define g3 where "g3 = v div 128 div 128 div 128"
  have g: "0 \<le> g0" "g0 < 128" "0 \<le> g1" "g1 < 128" "0 \<le> g2" "g2 < 128"
    "0 \<le> g3" "g3 < 128"
    using assms by (simp_all add: g0_def g1_def g2_def g3_def)
  have big: "128 \<le> v" "128 \<le> v div 128" "128 \<le> v div 128 div 128"
    using assms by simp_all
  have small: "v < 2 ^ 31" "v div 128 < 2 ^ 31" "v div 128 div 128 < 2 ^ 31"
    using assms by simp_all
  have "toInt32 v = v" using assms by (simp add: toInt32_id)
  then have "writeVarInt data v = varIntEmit (varIntPack v g0) data"
    by (simp add: writeVarInt_def and_127 g0_def)
  also have "varIntPack v g0 = varIntPack (v div 128) (g0 * 256 + 128 + g1)"
    using g big small by (subst pack_next) (simp_all add: g1_def)
  also have "\<dots> = varIntPack (v div 128 div 128) ((g0 * 256 + 128 + g1) * 256 + 128 + g2)"
    using g big small by (subst pack_next) (simp_all add: g2_def)
  also have "\<dots> = varIntPack g3 (((g0 * 256 + 128 + g1) * 256 + 128 + g2) * 256 + 128 + g3)"
    using g big small by (subst pack_next) (simp_all add: g3_def)
  also have "\<dots> = ((g0 * 256 + 128 + g1) * 256 + 128 + g2) * 256 + 128 + g3"
    using g by (rule_tac varIntPack_small)
  also have "varIntEmit \<dots> data = Some (data @ [128 + g3, 128 + g2, 128 + g1, g0])"
    using g by (rule emit_4)
  finally show ?thesis by (simp only: g0_def g1_def g2_def g3_def)
qed

lemma decode_last:
  assumes "0 \<le> g" "g < 128"
  shows "vlqDecode (g # rest) acc = Some (acc * 128 + g, rest)"
  using assms by (simp add: and_128_iff and_127)

lemma decode_more:
  assumes "0 \<le> g" "g < 128"
  shows "vlqDecode ((128 + g) # rest) acc = vlqDecode rest (acc * 128 + g)"
proof -
  have "(128 + g) div 128 = 1" using assms by linarith
  moreover have "(128 + g) mod 128 = g" using assms by simp
  ultimately show ?thesis by (simp add: and_128_iff and_127)
qed

lemma groups_bound:
  assumes "0 \<le> (v::int)" "v < 2 ^ 28"
  shows "0 \<le> v div 128" "0 \<le> v div 128 div 128" "0 \<le> v div 128 div 128 div 128"
    "v div 128 div 128 div 128 < 128"
    "v < 2 ^ 21 \<Longrightarrow> v div 128 div 128 < 128"
    "v < 2 ^ 14 \<Longrightarrow> v div 128 < 128"
  using assms by simp_all

text \<open>
  C3. Every tick value from 0 to \<open>2^28 - 1\<close> that \<open>writeVarInt\<close> is given is written
  (the writer returns, appending to the data it was given), and reading the bytes it
  appended by the rule of the format gives the value back, leaving whatever followed.
\<close>

theorem writeVarInt_roundtrip:
  assumes "0 \<le> v" "v < 2 ^ 28"
  shows "\<exists>bytes. writeVarInt data v = Some (data @ bytes)
            \<and> vlqDecode (bytes @ rest) 0 = Some (v, rest)"
proof -
  note gb = groups_bound [OF assms]
  consider "v < 2 ^ 7" | "2 ^ 7 \<le> v" "v < 2 ^ 14" | "2 ^ 14 \<le> v" "v < 2 ^ 21"
    | "2 ^ 21 \<le> v" by linarith
  then show ?thesis
  proof cases
    case 1
    have "vlqDecode ([v] @ rest) 0 = Some (v, rest)"
      using 1 assms by (simp add: decode_last del: vlqDecode.simps)
    then show ?thesis using 1 assms writeVarInt_1 [of v data] by blast
  next
    case 2
    have "vlqDecode ([128 + v div 128, v mod 128] @ rest) 0
            = Some (v div 128 * 128 + v mod 128, rest)"
      using gb(1) gb(6) [OF 2(2)]
      by (simp add: decode_more decode_last del: vlqDecode.simps)
    then have "vlqDecode ([128 + v div 128, v mod 128] @ rest) 0 = Some (v, rest)"
      by (simp only: div_mult_mod_eq)
    then show ?thesis using writeVarInt_2 [OF 2, of data] by blast
  next
    case 3
    have "vlqDecode ([128 + v div 128 div 128, 128 + v div 128 mod 128, v mod 128] @ rest) 0
            = Some ((v div 128 div 128 * 128 + v div 128 mod 128) * 128 + v mod 128, rest)"
      using gb(2) gb(5) [OF 3(2)]
      by (simp add: decode_more decode_last del: vlqDecode.simps)
    then have "vlqDecode ([128 + v div 128 div 128, 128 + v div 128 mod 128, v mod 128] @ rest) 0
            = Some (v, rest)"
      by (simp only: div_mult_mod_eq)
    then show ?thesis using writeVarInt_3 [OF 3, of data] by blast
  next
    case 4
    have "vlqDecode ([128 + v div 128 div 128 div 128, 128 + v div 128 div 128 mod 128,
                      128 + v div 128 mod 128, v mod 128] @ rest) 0
            = Some (((v div 128 div 128 div 128 * 128 + v div 128 div 128 mod 128) * 128
                     + v div 128 mod 128) * 128 + v mod 128, rest)"
      using gb(3) gb(4)
      by (simp add: decode_more decode_last del: vlqDecode.simps)
    then have "vlqDecode ([128 + v div 128 div 128 div 128, 128 + v div 128 div 128 mod 128,
                      128 + v div 128 mod 128, v mod 128] @ rest) 0 = Some (v, rest)"
      by (simp only: div_mult_mod_eq)
    then show ?thesis using writeVarInt_4 [OF 4 assms(2), of data] by blast
  qed
qed

theorem writeVarInt_roundtrip_witness:
  "(0::int) \<le> 480 \<and> (480::int) < 2 ^ 28
   \<and> (\<exists>bytes. writeVarInt [] 480 = Some ([] @ bytes)
         \<and> vlqDecode (bytes @ [0x90, 60, 100]) 0 = Some (480, [0x90, 60, 100]))"
  using writeVarInt_roundtrip [of 480 "[]" "[0x90, 60, 100]"] by simp

subsection \<open>The order of a note's two events\<close>

lemma occursBefore_insort:
  "occursBefore ys x y \<Longrightarrow> occursBefore (insort_key f a ys) x y"
  by (induction ys) (auto simp: set_insort_key)

lemma occursBefore_inserted:
  "y \<in> set ys \<Longrightarrow> f a \<le> f y \<Longrightarrow> occursBefore (insort_key f a ys) a y"
  by (induction ys) auto

lemma occursBefore_sort_key:
  "occursBefore xs x y \<Longrightarrow> f x \<le> f y \<Longrightarrow> occursBefore (sort_key f xs) x y"
proof (induction xs)
  case Nil
  then show ?case by simp
next
  case (Cons z zs)
  from Cons.prems(1) consider "z = x" "y \<in> set zs" | "occursBefore zs x y" by auto
  then show ?case
  proof cases
    case 1
    then have "y \<in> set (sort_key f zs)" by simp
    from occursBefore_inserted [OF this Cons.prems(2)] 1 show ?thesis by simp
  next
    case 2
    from Cons.IH [OF 2 Cons.prems(2)] show ?thesis by (simp add: occursBefore_insort)
  qed
qed

lemma occursBefore_positions:
  "occursBefore xs x y \<Longrightarrow> \<exists>p q. p < q \<and> q < length xs \<and> xs ! p = x \<and> xs ! q = y"
proof (induction xs)
  case Nil
  then show ?case by simp
next
  case (Cons z zs)
  from Cons.prems consider "z = x" "y \<in> set zs" | "occursBefore zs x y" by auto
  then show ?case
  proof cases
    case 1
    then obtain k where "k < length zs" "zs ! k = y" by (auto simp: in_set_conv_nth)
    then have "0 < Suc k \<and> Suc k < length (z # zs) \<and> (z # zs) ! 0 = x \<and> (z # zs) ! Suc k = y"
      using 1 by simp
    then show ?thesis by blast
  next
    case 2
    from Cons.IH [OF 2] obtain p q where "p < q" "q < length zs" "zs ! p = x" "zs ! q = y"
      by blast
    then have "Suc p < Suc q \<and> Suc q < length (z # zs) \<and> (z # zs) ! Suc p = x \<and> (z # zs) ! Suc q = y"
      by simp
    then show ?thesis by blast
  qed
qed

lemma occursBefore_enumerate:
  "occursBefore (enumerate k (us @ a # b # ws)) (k + length us, a) (Suc (k + length us), b)"
proof (induction us arbitrary: k)
  case Nil
  show ?case by simp
next
  case (Cons u us)
  from Cons [of "Suc k"] show ?case by simp
qed

lemma map_insort_key_snd:
  "map snd (insort_key (\<lambda>x. f (snd x)) a ys) = insort_key f (snd a) (map snd ys)"
  by (induction ys) simp_all

lemma map_sort_key_snd:
  "map snd (sort_key (\<lambda>x. f (snd x)) xs) = sort_key f (map snd xs)"
  by (induction xs) (simp_all add: map_insort_key_snd)

lemma length_collectEvents: "length (collectEvents tempo ns) = 2 * length ns"
  by (induction ns) (simp_all add: collectEvents_def noteEvents_def)

lemma collectEvents_split:
  assumes "i < length notes"
  shows "collectEvents tempo notes
           = collectEvents tempo (take i notes)
             @ noteEvents tempo (notes ! i) ! 0 # noteEvents tempo (notes ! i) ! 1
             # collectEvents tempo (drop (Suc i) notes)"
proof -
  have "notes = take i notes @ notes ! i # drop (Suc i) notes"
    using assms by (rule id_take_nth_drop)
  then have "collectEvents tempo notes
      = collectEvents tempo (take i notes @ notes ! i # drop (Suc i) notes)" by simp
  also have "\<dots> = collectEvents tempo (take i notes) @ noteEvents tempo (notes ! i)
                    @ collectEvents tempo (drop (Suc i) notes)"
    by (simp add: collectEvents_def)
  finally show ?thesis by (simp add: noteEvents_def)
qed

lemma js_round_mono: "x \<le> y \<Longrightarrow> js_round x \<le> js_round y"
  unfolding js_round_def by (intro floor_mono) simp

lemma tickOf_mono:
  assumes "0 < tempo" "s \<le> t"
  shows "tickOf tempo s \<le> tickOf tempo t"
proof -
  have "0 < secondsPerTick tempo" using assms(1) by (simp add: secondsPerTick_def TICKS_PER_BEAT_def)
  then have "s / secondsPerTick tempo \<le> t / secondsPerTick tempo"
    using assms(2) by (simp add: divide_right_mono)
  then show ?thesis using assms(1) by (simp add: tickOf_def js_round_mono)
qed

text \<open>
  C10, as the claim states it, fails for a note list the encoder accepts: nothing checks
  the duration, and a note of negative duration ends at an earlier tick than it starts,
  so the sort puts its note-off first. At 120 BPM the note that starts at 1 s with a
  duration of -0.5 s has its note-off at tick 480 and its note-on at tick 960, and the
  track begins 83 60 80 3C 00 (the note-off) before 83 60 90 3C 64 (the note-on).
\<close>

theorem noteOff_first_counterexample:
  "sortEvents (collectEvents 120 [\<lparr>noteNumber = 60, velocity = 100, startTime = 1, duration = - (1/2)\<rparr>])
     = [\<lparr>evType = NoteOff, evNote = 60, evVelocity = 0, time = 480\<rparr>,
        \<lparr>evType = NoteOn, evNote = 60, evVelocity = 100, time = 960\<rparr>]
   \<and> trackBytes [\<lparr>noteNumber = 60, velocity = 100, startTime = 1, duration = - (1/2)\<rparr>] 120
     = Some [0x83, 0x60, 0x80, 60, 0, 0x83, 0x60, 0x90, 60, 100, 0x00, 0xFF, 0x2F, 0x00]"
proof -
  let ?n = "\<lparr>noteNumber = 60, velocity = 100, startTime = 1, duration = - (1/2)\<rparr>"
  have t: "tickOf 120 1 = 960" "tickOf 120 (1 / 2) = 480"
    by (simp_all add: tickOf_def secondsPerTick_def TICKS_PER_BEAT_def js_round_def)
  have s: "sortEvents (collectEvents 120 [?n])
     = [\<lparr>evType = NoteOff, evNote = 60, evVelocity = 0, time = 480\<rparr>,
        \<lparr>evType = NoteOn, evNote = 60, evVelocity = 100, time = 960\<rparr>]"
    by (simp add: sortEvents_def collectEvents_def noteEvents_def t)
  have w: "writeVarInt data 480 = Some (data @ [0x83, 0x60])" for data
    using writeVarInt_2 [of 480 data] by simp
  have "trackBytes [?n] 120
     = Some [0x83, 0x60, 0x80, 60, 0, 0x83, 0x60, 0x90, 60, 100, 0x00, 0xFF, 0x2F, 0x00]"
    by (simp add: trackBytes_def s w writeVarInt_zero)
  with s show ?thesis by simp
qed

text \<open>
  C10, amended. For every positive BPM and every note list whose durations are not
  negative, each note's note-on is written before that same note's note-off, also when
  both fall on one tick. The events are followed by their position in the list
  \<open>collectEvents\<close> builds (the note at index \<open>i\<close> pushes its note-on at \<open>2 * i\<close> and its
  note-off at \<open>2 * i + 1\<close>): \<open>tagged\<close> is that list, each event paired with its
  position, sorted by tick as the code sorts; its events are the sorted events, in the
  order \<open>writeEvents\<close> writes them.
\<close>

theorem noteOn_before_noteOff:
  assumes "0 < tempo" and "\<forall>n \<in> set notes. 0 \<le> duration n" and "i < length notes"
  shows "\<exists>tagged p q.
           tagged = sort_key (\<lambda>x. time (snd x)) (enumerate 0 (collectEvents tempo notes))
         \<and> map snd tagged = sortEvents (collectEvents tempo notes)
         \<and> p < q \<and> q < length tagged
         \<and> tagged ! p = (2 * i, noteEvents tempo (notes ! i) ! 0)
         \<and> tagged ! q = (2 * i + 1, noteEvents tempo (notes ! i) ! 1)"
proof -
  define evs where "evs = collectEvents tempo notes"
  define tagged where "tagged = sort_key (\<lambda>x. time (snd x)) (enumerate 0 evs)"
  define on where "on = noteEvents tempo (notes ! i) ! 0"
  define off where "off = noteEvents tempo (notes ! i) ! 1"
  have m: "map snd tagged = sortEvents evs"
    by (simp add: tagged_def map_sort_key_snd sortEvents_def)
  have "evs = collectEvents tempo (take i notes) @ on # off # collectEvents tempo (drop (Suc i) notes)"
    unfolding evs_def on_def off_def using assms(3) by (rule collectEvents_split)
  moreover have "length (collectEvents tempo (take i notes)) = 2 * i"
    using assms(3) by (simp add: length_collectEvents)
  ultimately have "occursBefore (enumerate 0 evs) (2 * i, on) (Suc (2 * i), off)"
    using occursBefore_enumerate [of 0 "collectEvents tempo (take i notes)" on off
        "collectEvents tempo (drop (Suc i) notes)"] by simp
  moreover have "(\<lambda>x. time (snd x)) (2 * i, on) \<le> (\<lambda>x. time (snd x)) (Suc (2 * i), off)"
  proof -
    have "notes ! i \<in> set notes" using assms(3) by simp
    then have "0 \<le> duration (notes ! i)" using assms(2) by blast
    then have "tickOf tempo (startTime (notes ! i))
                 \<le> tickOf tempo (startTime (notes ! i) + duration (notes ! i))"
      using assms(1) by (intro tickOf_mono) simp_all
    then show ?thesis by (simp add: on_def off_def noteEvents_def)
  qed
  ultimately have "occursBefore tagged (2 * i, on) (Suc (2 * i), off)"
    unfolding tagged_def by (rule occursBefore_sort_key)
  from occursBefore_positions [OF this] obtain p q where
    "p < q" "q < length tagged" "tagged ! p = (2 * i, on)" "tagged ! q = (Suc (2 * i), off)"
    by blast
  with m show ?thesis unfolding tagged_def evs_def on_def off_def by auto
qed

theorem noteOn_before_noteOff_witness:
  "(0::real) < 120
   \<and> 0 \<le> duration \<lparr>noteNumber = 60, velocity = 100, startTime = 1, duration = 0\<rparr>
   \<and> sortEvents (collectEvents 120 [\<lparr>noteNumber = 60, velocity = 100, startTime = 1, duration = 0\<rparr>])
       = [\<lparr>evType = NoteOn, evNote = 60, evVelocity = 100, time = 960\<rparr>,
          \<lparr>evType = NoteOff, evNote = 60, evVelocity = 0, time = 960\<rparr>]
   \<and> (\<exists>tagged p q.
           tagged = sort_key (\<lambda>x. time (snd x))
                      (enumerate 0 (collectEvents 120
                         [\<lparr>noteNumber = 60, velocity = 100, startTime = 1, duration = 0\<rparr>]))
         \<and> map snd tagged
             = sortEvents (collectEvents 120
                 [\<lparr>noteNumber = 60, velocity = 100, startTime = 1, duration = 0\<rparr>])
         \<and> p < q \<and> q < length tagged
         \<and> tagged ! p
             = (2 * 0, noteEvents 120
                  ([\<lparr>noteNumber = 60, velocity = 100, startTime = 1, duration = 0\<rparr>] ! 0) ! 0)
         \<and> tagged ! q
             = (2 * 0 + 1, noteEvents 120
                  ([\<lparr>noteNumber = 60, velocity = 100, startTime = 1, duration = 0\<rparr>] ! 0) ! 1))"
proof -
  let ?n = "\<lparr>noteNumber = 60, velocity = 100, startTime = 1, duration = 0\<rparr>"
  have a: "(0::real) < 120" by simp
  have b: "\<forall>n \<in> set [?n]. 0 \<le> duration n" by simp
  have c: "0 < length [?n]" by simp
  have d: "0 \<le> duration ?n" by simp
  have t: "tickOf 120 1 = 960"
    by (simp add: tickOf_def secondsPerTick_def TICKS_PER_BEAT_def js_round_def)
  have s: "sortEvents (collectEvents 120 [?n])
       = [\<lparr>evType = NoteOn, evNote = 60, evVelocity = 100, time = 960\<rparr>,
          \<lparr>evType = NoteOff, evNote = 60, evVelocity = 0, time = 960\<rparr>]"
    by (simp add: sortEvents_def collectEvents_def noteEvents_def t)
  note r = noteOn_before_noteOff [OF a b c]
  show ?thesis by (intro conjI a d s r)
qed

subsection \<open>Note lists the encoder does not check\<close>

lemma writeVarInt_returns:
  assumes "0 \<le> v" "v < 2 ^ 28"
  shows "\<exists>bytes. writeVarInt data v = Some (data @ bytes)"
proof -
  consider "v < 2 ^ 7" | "2 ^ 7 \<le> v" "v < 2 ^ 14" | "2 ^ 14 \<le> v" "v < 2 ^ 21"
    | "2 ^ 21 \<le> v" by linarith
  then show ?thesis
  proof cases
    case 1
    then show ?thesis using assms writeVarInt_1 [of v data] by blast
  next
    case 2
    then show ?thesis using writeVarInt_2 [of v data] by blast
  next
    case 3
    then show ?thesis using writeVarInt_3 [of v data] by blast
  next
    case 4
    then show ?thesis using assms writeVarInt_4 [of v data] by blast
  qed
qed

text \<open>
  C8, as the claim states it, fails: \<open>generateMidiFile\<close> has no validation and no error
  to report. A note with pitch 200, velocity 300 and a negative duration is encoded like
  any other: 36 bytes come back, the pitch byte C8 and the velocity byte 2C (300 modulo
  256) among them.
\<close>

theorem generateMidiFile_invalid_note:
  "generateMidiFile [\<lparr>noteNumber = 200, velocity = 300, startTime = 1, duration = - (1/2)\<rparr>] 120
     = Some [0x4D, 0x54, 0x68, 0x64, 0, 0, 0, 6, 0, 0, 0, 1, 0x01, 0xE0,
             0x4D, 0x54, 0x72, 0x6B, 0, 0, 0, 14,
             0x83, 0x60, 0x80, 200, 0, 0x83, 0x60, 0x90, 200, 44, 0x00, 0xFF, 0x2F, 0x00]"
proof -
  let ?n = "\<lparr>noteNumber = 200, velocity = 300, startTime = 1, duration = - (1/2)\<rparr>"
  have t: "tickOf 120 1 = 960" "tickOf 120 (1 / 2) = 480"
    by (simp_all add: tickOf_def secondsPerTick_def TICKS_PER_BEAT_def js_round_def)
  have s: "sortEvents (collectEvents 120 [?n])
     = [\<lparr>evType = NoteOff, evNote = 200, evVelocity = 0, time = 480\<rparr>,
        \<lparr>evType = NoteOn, evNote = 200, evVelocity = 300, time = 960\<rparr>]"
    by (simp add: sortEvents_def collectEvents_def noteEvents_def t)
  have w: "writeVarInt data 480 = Some (data @ [0x83, 0x60])" for data
    using writeVarInt_2 [of 480 data] by simp
  have "trackBytes [?n] 120
     = Some [0x83, 0x60, 0x80, 200, 0, 0x83, 0x60, 0x90, 200, 300, 0x00, 0xFF, 0x2F, 0x00]"
    by (simp add: trackBytes_def s w writeVarInt_zero)
  then show ?thesis
    by (simp add: generateMidiFile_def writeString_def setUint32_def setUint16_def
        TICKS_PER_BEAT_def)
qed

lemma toInt32_idem: "toInt32 (toInt32 v) = toInt32 v"
  by (simp add: toInt32_def)

lemma toInt32_range: "- (2 ^ 31) \<le> toInt32 v" "toInt32 v < 2 ^ 31"
  by (simp_all add: toInt32_def)

lemma varIntPack_toInt32: "varIntPack (toInt32 v) b = varIntPack v b"
  by (simp add: varIntPack.simps [of v] varIntPack.simps [of "toInt32 v"] toInt32_idem)

lemma writeVarInt_toInt32: "writeVarInt data (toInt32 v) = writeVarInt data v"
  by (simp add: writeVarInt_def varIntPack_toInt32 toInt32_idem)

lemma writeVarInt_negative:
  assumes "toInt32 v < 0"
  shows "writeVarInt data v = Some (data @ [toInt32 v mod 128])"
proof -
  have "\<not> 0 < drop_bit 7 (toInt32 v)" using assms by (simp add: drop_bit_eq_div)
  then have "varIntPack v (toInt32 v mod 128) = toInt32 v mod 128"
    by (subst varIntPack.simps) (simp add: Let_def)
  then show ?thesis by (simp add: writeVarInt_def and_127 emit_last)
qed

lemma emit_stuck:
  assumes "varIntEmit buffer d = Some y"
  shows "buffer \<noteq> - 1"
  using assms
proof (rule varIntEmit.raw_induct [where P = "\<lambda>b d y. b \<noteq> - 1", rotated])
  fix f :: "int \<Rightarrow> int list \<Rightarrow> int list option" and b :: int
    and dat r :: "int list"
  assume ih: "\<And>b dat r. f b dat = Some r \<Longrightarrow> b \<noteq> - 1"
  assume st: "(if toInt32 b AND 128 \<noteq> 0
               then f (drop_bit 8 (toInt32 b)) (dat @ [toInt32 b AND 255])
               else Some (dat @ [toInt32 b AND 255])) = Some r"
  show "b \<noteq> - 1"
  proof
    assume b: "b = - 1"
    have t: "toInt32 (- 1) = - 1" by (simp add: toInt32_def)
    have "f (- 1) (dat @ [toInt32 (- 1) AND 255]) = Some r"
      using st by (simp add: b t)
    from ih [OF this] show False by simp
  qed
qed

lemma emit_minus_one: "varIntEmit (- 1) data = None"
  using emit_stuck [of "- 1" data] by (cases "varIntEmit (- 1) data") auto

lemma emit_more_negative:
  assumes "- (2 ^ 23) \<le> b" "b < 0" "0 \<le> g" "g < 128"
  shows "varIntEmit (b * 256 + 128 + g) data = varIntEmit b (data @ [128 + g])"
proof -
  have "toInt32 (b * 256 + 128 + g) = b * 256 + 128 + g"
    using assms by (simp add: toInt32_id)
  moreover have "(b * 256 + 128 + g) div 128 = 2 * b + 1" using assms by linarith
  moreover have "(b * 256 + 128 + g) mod 256 = 128 + g"
  proof -
    have "(b * 256 + 128 + g) mod 256 = ((128 + g) + b * 256) mod 256" by (simp add: ac_simps)
    also have "\<dots> = (128 + g) mod 256" by (rule mod_mult_self1)
    also have "\<dots> = 128 + g" using assms by simp
    finally show ?thesis .
  qed
  moreover have "(b * 256 + 128 + g) div 256 = b" using assms by linarith
  ultimately show ?thesis using assms
    by (subst varIntEmit.simps) (simp add: and_128_iff and_255 drop_bit_eq_div)
qed

lemma toInt32_add_mult: "toInt32 (x + k * 2 ^ 32) = toInt32 x"
proof -
  have "(x + k * 2 ^ 32 + 2 ^ 31) mod 2 ^ 32 = ((x + 2 ^ 31) + k * 2 ^ 32) mod 2 ^ 32"
    by (simp add: ac_simps)
  also have "\<dots> = (x + 2 ^ 31) mod 2 ^ 32" by (rule mod_mult_self1)
  finally show ?thesis by (simp add: toInt32_def)
qed

lemma pack_overflow:
  assumes "0 \<le> g0" "g0 < 128" "- (2 ^ 23) \<le> D" "D < 0" "0 \<le> g" "g < 128"
  shows "(toInt32 (push_bit 8 (toInt32 (D + (g0 + 1) * 2 ^ 24))) OR 0x80) + (toInt32 g AND 0x7f)
           = D * 256 + 128 + g"
proof -
  have "toInt32 (D + (g0 + 1) * 2 ^ 24) = D + (g0 + 1) * 2 ^ 24"
    using assms by (simp add: toInt32_id)
  moreover have "push_bit 8 (D + (g0 + 1) * 2 ^ 24) = D * 256 + (g0 + 1) * 2 ^ 32"
    by (simp add: push_bit_eq_mult algebra_simps)
  moreover have "toInt32 (D * 256 + (g0 + 1) * 2 ^ 32) = D * 256"
    using assms by (simp only: toInt32_add_mult) (simp add: toInt32_id)
  moreover have "D * 256 = push_bit 8 D" by (simp add: push_bit_eq_mult)
  moreover have "toInt32 g = g" using assms by (simp add: toInt32_id)
  ultimately show ?thesis using assms by (simp add: shift_or_128 and_127)
qed

lemma writeVarInt_5:
  assumes "2 ^ 28 \<le> v" "v < 2 ^ 31"
  shows "writeVarInt data v = None"
proof -
  define g0 where "g0 = v mod 128"
  define g1 where "g1 = v div 128 mod 128"
  define g2 where "g2 = v div 128 div 128 mod 128"
  define g3 where "g3 = v div 128 div 128 div 128 mod 128"
  define g4 where "g4 = v div 128 div 128 div 128 div 128"
  define w where "w = v div 128 div 128 div 128"
  have g: "0 \<le> g0" "g0 < 128" "0 \<le> g1" "g1 < 128" "0 \<le> g2" "g2 < 128"
    "0 \<le> g3" "g3 < 128" "0 < g4" "g4 < 128"
    using assms by (simp_all add: g0_def g1_def g2_def g3_def g4_def)
  have big: "128 \<le> v" "128 \<le> v div 128" "128 \<le> v div 128 div 128"
    using assms by simp_all
  have small: "v < 2 ^ 31" "v div 128 < 2 ^ 31" "v div 128 div 128 < 2 ^ 31"
    using assms by simp_all
  have w: "0 \<le> w" "w < 2 ^ 31" "w div 128 = g4" "w mod 128 = g3"
    using assms by (simp_all add: w_def g4_def g3_def)
  define D2 where "D2 = - 1 * 256 + 128 + g1"
  define D1 where "D1 = D2 * 256 + 128 + g2"
  define D where "D = D1 * 256 + 128 + g3"
  have d: "- (2 ^ 7) \<le> D2" "D2 < 0" "- (2 ^ 15) \<le> D1" "D1 < 0" "- (2 ^ 23) \<le> D" "D < 0"
    using g by (simp_all add: D2_def D1_def D_def)
  have B3: "((g0 * 256 + 128 + g1) * 256 + 128 + g2) * 256 + 128 + g3 = D + (g0 + 1) * 2 ^ 24"
    by (simp add: D_def D1_def D2_def algebra_simps)
  have "toInt32 v = v" using assms by (simp add: toInt32_id)
  then have "writeVarInt data v = varIntEmit (varIntPack v g0) data"
    by (simp add: writeVarInt_def and_127 g0_def)
  also have "varIntPack v g0 = varIntPack (v div 128) (g0 * 256 + 128 + g1)"
    using g big small by (subst pack_next) (simp_all add: g1_def)
  also have "\<dots> = varIntPack (v div 128 div 128) ((g0 * 256 + 128 + g1) * 256 + 128 + g2)"
    using g big small by (subst pack_next) (simp_all add: g2_def)
  also have "\<dots> = varIntPack w (((g0 * 256 + 128 + g1) * 256 + 128 + g2) * 256 + 128 + g3)"
    using g big small by (subst pack_next) (simp_all add: g3_def w_def)
  also have "\<dots> = varIntPack w (D + (g0 + 1) * 2 ^ 24)" by (simp only: B3)
  also have "\<dots> = varIntPack g4 (D * 256 + 128 + g4)"
  proof -
    have "toInt32 w = w" using w by (simp add: toInt32_id)
    then have "drop_bit 7 (toInt32 w) = g4" using w by (simp add: drop_bit_eq_div)
    moreover have "(toInt32 (push_bit 8 (toInt32 (D + (g0 + 1) * 2 ^ 24))) OR 0x80)
        + (toInt32 g4 AND 0x7f) = D * 256 + 128 + g4"
      using g d by (intro pack_overflow) simp_all
    ultimately show ?thesis using g
      by (subst varIntPack.simps) (simp add: Let_def)
  qed
  also have "\<dots> = D * 256 + 128 + g4"
    using g by (intro varIntPack_small) simp_all
  also have "varIntEmit \<dots> data = varIntEmit D (data @ [128 + g4])"
    using g d by (intro emit_more_negative) simp_all
  also have "\<dots> = varIntEmit D1 ((data @ [128 + g4]) @ [128 + g3])"
    unfolding D_def using g d by (intro emit_more_negative) simp_all
  also have "\<dots> = varIntEmit D2 (((data @ [128 + g4]) @ [128 + g3]) @ [128 + g2])"
    unfolding D1_def using g d by (intro emit_more_negative) simp_all
  also have "\<dots> = varIntEmit (- 1) ((((data @ [128 + g4]) @ [128 + g3]) @ [128 + g2]) @ [128 + g1])"
    unfolding D2_def using g by (intro emit_more_negative) simp_all
  also have "\<dots> = None" by (rule emit_minus_one)
  finally show ?thesis .
qed

lemma writeVarInt_returns_iff:
  "(\<exists>bytes. writeVarInt data v = Some (data @ bytes)) = (toInt32 v < 2 ^ 28)"
  "(writeVarInt data v = None) = (2 ^ 28 \<le> toInt32 v)"
proof -
  consider "toInt32 v < 0" | "0 \<le> toInt32 v" "toInt32 v < 2 ^ 28" | "2 ^ 28 \<le> toInt32 v"
    by linarith
  then have "((\<exists>bytes. writeVarInt data v = Some (data @ bytes)) = (toInt32 v < 2 ^ 28))
      \<and> ((writeVarInt data v = None) = (2 ^ 28 \<le> toInt32 v))"
  proof cases
    case 1
    then show ?thesis by (simp add: writeVarInt_negative)
  next
    case 2
    from writeVarInt_returns [OF this] obtain bytes where
      "writeVarInt data (toInt32 v) = Some (data @ bytes)" by blast
    then show ?thesis using 2 by (simp add: writeVarInt_toInt32)
  next
    case 3
    then have "writeVarInt data (toInt32 v) = None"
      using toInt32_range [of v] by (intro writeVarInt_5) simp_all
    then show ?thesis using 3 by (simp add: writeVarInt_toInt32)
  qed
  then show "(\<exists>bytes. writeVarInt data v = Some (data @ bytes)) = (toInt32 v < 2 ^ 28)"
    "(writeVarInt data v = None) = (2 ^ 28 \<le> toInt32 v)" by simp_all
qed

lemma generateMidiFile_encodeEvents:
  "generateMidiFile ns tempo = encodeEvents (collectEvents tempo ns)"
  by (simp add: generateMidiFile_def trackBytes_def encodeEvents_def split: option.splits)

lemma writeEvents_returns_iff:
  "(\<exists>track. writeEvents es cur data = Some track)
     = (\<forall>d \<in> set (deltaTimes es cur). toInt32 d < 2 ^ 28)"
proof (induction es arbitrary: cur data)
  case Nil
  show ?case by simp
next
  case (Cons e es)
  show ?case
  proof (cases "toInt32 (time e - cur) < 2 ^ 28")
    case True
    then obtain bytes where "writeVarInt data (time e - cur) = Some (data @ bytes)"
      using writeVarInt_returns_iff(1) [of data "time e - cur"] by blast
    then show ?thesis using True Cons.IH by simp
  next
    case False
    then have "writeVarInt data (time e - cur) = None"
      by (simp add: writeVarInt_returns_iff(2))
    then show ?thesis using False by simp
  qed
qed

text \<open>
  C8, amended. The encoder checks no field of a note and reports no error; whether the
  call returns depends on the ticks alone. For every array of events with ticks between
  \<open>-2^52\<close> and \<open>2^52\<close> (where the subtractions of the code are exact), whatever the note
  numbers and velocities, a file is returned exactly when every delta time handed to
  \<open>writeVarInt\<close> is, as a 32-bit integer, below \<open>2^28\<close>; otherwise \<open>writeVarInt\<close> does not
  leave its second loop. A returned file is the 22 header bytes, whose track length field
  holds the number of track bytes, followed by the track bytes, each reduced modulo 256;
  the track is never shorter than the four bytes that end it.
\<close>

theorem encodeEvents_returns:
  assumes "\<forall>e \<in> set events. - (2 ^ 52) \<le> time e \<and> time e \<le> 2 ^ 52"
  shows "((\<exists>file. encodeEvents events = Some file)
            = (\<forall>d \<in> set (deltaTimes (sortEvents events) 0). toInt32 d < 2 ^ 28))
       \<and> (\<forall>file. encodeEvents events = Some file \<longrightarrow>
             (\<exists>track. file = writeString ''MThd'' @ setUint32 6 @ setUint16 0 @ setUint16 1
                                @ setUint16 TICKS_PER_BEAT
                                @ writeString ''MTrk'' @ setUint32 (int (length track))
                                @ map (\<lambda>b. b mod 256) track
                      \<and> 4 \<le> length track \<and> length file = 22 + length track))"
proof (cases "writeEvents (sortEvents events) 0 []")
  case None
  then have "encodeEvents events = None" by (simp add: encodeEvents_def)
  moreover have "\<not> (\<forall>d \<in> set (deltaTimes (sortEvents events) 0). toInt32 d < 2 ^ 28)"
    using None writeEvents_returns_iff [of "sortEvents events" 0 "[]"] by simp
  ultimately show ?thesis by simp
next
  case (Some written)
  define track where "track = written @ [0x00, 0xFF, 0x2F, 0x00]"
  have e: "encodeEvents events
             = Some (writeString ''MThd'' @ setUint32 6 @ setUint16 0 @ setUint16 1
                     @ setUint16 TICKS_PER_BEAT
                     @ writeString ''MTrk'' @ setUint32 (int (length track))
                     @ map (\<lambda>b. b mod 256) track)"
    by (simp add: encodeEvents_def Some writeVarInt_zero track_def)
  have "\<forall>d \<in> set (deltaTimes (sortEvents events) 0). toInt32 d < 2 ^ 28"
    using Some writeEvents_returns_iff [of "sortEvents events" 0 "[]"] by simp
  moreover have "4 \<le> length track" by (simp add: track_def)
  moreover have "length (writeString ''MThd'' @ setUint32 6 @ setUint16 0 @ setUint16 1
                     @ setUint16 TICKS_PER_BEAT
                     @ writeString ''MTrk'' @ setUint32 (int (length track))
                     @ map (\<lambda>b. b mod 256) track) = 22 + length track"
    by (simp add: writeString_def setUint32_def setUint16_def)
  ultimately show ?thesis unfolding e by blast
qed

theorem encodeEvents_returns_witness:
  "collectEvents 120 [\<lparr>noteNumber = 200, velocity = 300, startTime = 0, duration = - (1/2)\<rparr>]
     = [\<lparr>evType = NoteOn, evNote = 200, evVelocity = 300, time = 0\<rparr>,
        \<lparr>evType = NoteOff, evNote = 200, evVelocity = 0, time = - 480\<rparr>]
   \<and> deltaTimes (sortEvents (collectEvents 120
         [\<lparr>noteNumber = 200, velocity = 300, startTime = 0, duration = - (1/2)\<rparr>])) 0
       = [- 480, 480]
   \<and> toInt32 (- 480) = - 480 \<and> toInt32 480 = 480
   \<and> (\<exists>file. generateMidiFile
         [\<lparr>noteNumber = 200, velocity = 300, startTime = 0, duration = - (1/2)\<rparr>] 120
           = Some file \<and> 26 \<le> length file)
   \<and> toInt32 (2 ^ 28) = 2 ^ 28
   \<and> encodeEvents [\<lparr>evType = NoteOn, evNote = 60, evVelocity = 100, time = 2 ^ 28\<rparr>] = None"
proof -
  let ?n = "\<lparr>noteNumber = 200, velocity = 300, startTime = 0, duration = - (1/2)\<rparr>"
  let ?late = "\<lparr>evType = NoteOn, evNote = 60, evVelocity = 100, time = 2 ^ 28\<rparr>"
  have t: "tickOf 120 0 = 0" "tickOf 120 (- (1 / 2)) = - 480"
    by (simp_all add: tickOf_def secondsPerTick_def TICKS_PER_BEAT_def js_round_def)
  have c: "collectEvents 120 [?n]
     = [\<lparr>evType = NoteOn, evNote = 200, evVelocity = 300, time = 0\<rparr>,
        \<lparr>evType = NoteOff, evNote = 200, evVelocity = 0, time = - 480\<rparr>]"
    by (simp add: collectEvents_def noteEvents_def t)
  have d: "deltaTimes (sortEvents (collectEvents 120 [?n])) 0 = [- 480, 480]"
    by (simp add: c sortEvents_def)
  have i: "toInt32 (- 480) = - 480" "toInt32 480 = 480" "toInt32 (2 ^ 28) = 2 ^ 28"
    by (simp_all add: toInt32_def)
  have j: "toInt32 268435456 = 268435456" by (simp add: toInt32_def)
  have h: "\<forall>e \<in> set (collectEvents 120 [?n]). - (2 ^ 52) \<le> time e \<and> time e \<le> 2 ^ 52"
    by (simp add: c)
  have h': "\<forall>e \<in> set [?late]. - (2 ^ 52) \<le> time e \<and> time e \<le> 2 ^ 52"
    by simp
  have "\<exists>file. encodeEvents (collectEvents 120 [?n]) = Some file"
    using encodeEvents_returns [OF h] by (simp add: d i)
  then obtain out where f: "encodeEvents (collectEvents 120 [?n]) = Some out" by blast
  then have "26 \<le> length out"
    using encodeEvents_returns [OF h] by auto
  with f have g: "\<exists>file. generateMidiFile [?n] 120 = Some file \<and> 26 \<le> length file"
    by (simp add: generateMidiFile_encodeEvents)
  have "\<not> (\<exists>file. encodeEvents [?late] = Some file)"
    using encodeEvents_returns [OF h'] by (simp add: sortEvents_def j)
  then have l: "encodeEvents [?late] = None" by simp
  from c d i g l show ?thesis by simp
qed

section \<open>Properties of the tap tempo\<close>

text \<open>
  C6. From the initial state, a tap at 0 and then a tap at 4000 leave the window holding
  the second timestamp only (\<open>4000 - 0 < 3000\<close> fails), \<open>setBpm\<close> is not called, so
  \<open>bpm\<close> is still its initial 0 and the pad shows the two dashes instead of a tempo.
\<close>

theorem handleTap_stale_gap:
  "handleTap 4000 (handleTap 0 initialTapState) = \<lparr>taps = [4000], bpm = Fin 0\<rparr>
   \<and> shownBpm (handleTap 4000 (handleTap 0 initialTapState)) = None"
  by (simp add: handleTap_def initialTapState_def shownBpm_def js_positive_def)

text \<open>
  C7, as the claim states it, fails: \<open>handleTap\<close> has no guard. Two taps in the same
  millisecond give one interval of 0, the mean is 0, \<open>60000 / 0\<close> is \<open>Infinity\<close>, and
  that is what \<open>setBpm\<close> stores and the pad shows.
\<close>

theorem handleTap_duplicate_infinite:
  "handleTap 1000 (handleTap 1000 initialTapState)
     = \<lparr>taps = [1000, 1000], bpm = PosInfinity\<rparr>
   \<and> shownBpm (handleTap 1000 (handleTap 1000 initialTapState)) = Some PosInfinity"
  by (simp add: handleTap_def initialTapState_def tapIntervals_def avgInterval_def
      bpmOfInterval_def js_div_def math_round_def shownBpm_def js_positive_def)

lemma length_tapIntervals: "length (tapIntervals xs) = length xs - 1"
  unfolding tapIntervals_def by simp

lemma nth_tapIntervals:
  "i < length xs - 1 \<Longrightarrow> tapIntervals xs ! i = xs ! Suc i - xs ! i"
  unfolding tapIntervals_def by (simp only: nth_map_upt) simp

lemma tapIntervals_short [simp]: "tapIntervals [] = []" "tapIntervals [a] = []"
  unfolding tapIntervals_def by simp_all

lemma tapIntervals_Cons2:
  "tapIntervals (a # b # xs) = (b - a) # tapIntervals (b # xs)"
proof (rule nth_equalityI)
  show "length (tapIntervals (a # b # xs)) = length ((b - a) # tapIntervals (b # xs))"
    by (simp add: length_tapIntervals)
next
  fix i
  assume "i < length (tapIntervals (a # b # xs))"
  then have i: "i < Suc (length xs)" by (simp add: length_tapIntervals)
  show "tapIntervals (a # b # xs) ! i = ((b - a) # tapIntervals (b # xs)) ! i"
  proof (cases i)
    case 0
    then show ?thesis by (simp add: nth_tapIntervals)
  next
    case (Suc j)
    then show ?thesis using i by (simp add: nth_tapIntervals)
  qed
qed

lemma fold_add_sum: "fold (\<lambda>b a. a + b) xs (k::int) = k + sum_list xs"
  by (induction xs arbitrary: k) simp_all

lemma sum_tapIntervals: "sum_list (tapIntervals (a # xs)) = last (a # xs) - a"
proof (induction xs arbitrary: a)
  case Nil
  show ?case by simp
next
  case (Cons b xs)
  show ?case using Cons [of b] by (simp add: tapIntervals_Cons2)
qed

lemma avgInterval_window:
  assumes "2 \<le> length w"
  shows "avgInterval (tapIntervals w)
           = Fin (real_of_int (last w - hd w) / real (length w - 1))"
proof -
  obtain a xs where w: "w = a # xs" using assms by (cases w) auto
  have "sum_list (tapIntervals w) = last w - hd w" by (simp add: w sum_tapIntervals del: last.simps)
  moreover have "real (length (tapIntervals w)) \<noteq> 0"
    using assms by (simp add: length_tapIntervals)
  ultimately show ?thesis
    by (simp add: avgInterval_def fold_add_sum js_div_def length_tapIntervals)
qed

text \<open>
  C7, amended. With timestamps between 0 and \<open>2^53\<close> (the values of \<open>Date.now()\<close>; their
  differences and the sums of these are then exact): when fewer than two timestamps remain
  in the window, \<open>handleTap\<close> leaves the BPM as it was; when two or more remain, it
  divides by the mean interval unguarded. The mean is zero exactly when the first and the
  last timestamp of the window are equal, and the stored BPM is then \<open>Infinity\<close>; otherwise
  the mean is not zero and the stored BPM is a finite number. Two equal timestamps inside
  the window, as in 0, 500, 500, 1000, leave it finite.
\<close>

theorem handleTap_mean_interval:
  assumes "\<forall>t \<in> set (taps s @ [now]). 0 \<le> t \<and> t \<le> 2 ^ 53"
  shows "(length (taps (handleTap now s)) < 2 \<longrightarrow> bpm (handleTap now s) = bpm s)
       \<and> (2 \<le> length (taps (handleTap now s))
            \<and> hd (taps (handleTap now s)) = last (taps (handleTap now s)) \<longrightarrow>
              avgInterval (tapIntervals (taps (handleTap now s))) = Fin 0
              \<and> bpm (handleTap now s) = PosInfinity)
       \<and> (2 \<le> length (taps (handleTap now s))
            \<and> hd (taps (handleTap now s)) \<noteq> last (taps (handleTap now s)) \<longrightarrow>
              (\<exists>m. m \<noteq> 0 \<and> avgInterval (tapIntervals (taps (handleTap now s))) = Fin m)
              \<and> (\<exists>b. bpm (handleTap now s) = Fin b))"
proof -
  define w where "w = filter (\<lambda>t. now - t < 3000) (taps s @ [now])"
  have step: "handleTap now s =
      (if length w > 1
       then \<lparr>taps = w, bpm = math_round (bpmOfInterval (avgInterval (tapIntervals w)))\<rparr>
       else \<lparr>taps = w, bpm = bpm s\<rparr>)"
    unfolding handleTap_def w_def Let_def by (rule refl)
  have t: "taps (handleTap now s) = w" by (simp add: step)
  show ?thesis
  proof (cases "2 \<le> length w")
    case False
    then show ?thesis by (simp add: step)
  next
    case True
    define m where "m = real_of_int (last w - hd w) / real (length w - 1)"
    have avg: "avgInterval (tapIntervals w) = Fin m"
      unfolding m_def using True by (rule avgInterval_window)
    have zero: "(m = 0) = (hd w = last w)" using True by (auto simp: m_def)
    have b: "bpm (handleTap now s) = math_round (js_div 60000 m)"
      using True by (simp add: step avg bpmOfInterval_def)
    have "hd w = last w \<Longrightarrow> bpm (handleTap now s) = PosInfinity"
      using zero by (simp add: b js_div_def math_round_def)
    moreover have "hd w \<noteq> last w \<Longrightarrow> \<exists>b. bpm (handleTap now s) = Fin b"
      using zero by (simp add: b js_div_def math_round_def)
    ultimately show ?thesis using True avg zero by (auto simp: t)
  qed
qed

theorem handleTap_mean_interval_witness:
  "(0::int) \<le> 500 \<and> (500::int) \<le> 2 ^ 53 \<and> (0::int) \<le> 1000 \<and> (1000::int) \<le> 2 ^ 53
   \<and> taps (handleTap 1000 \<lparr>taps = [0, 500, 500], bpm = Fin 120\<rparr>) = [0, 500, 500, 1000]
   \<and> (\<exists>b. bpm (handleTap 1000 \<lparr>taps = [0, 500, 500], bpm = Fin 120\<rparr>) = Fin b)
   \<and> bpm (handleTap 1000 \<lparr>taps = [0, 500, 500], bpm = Fin 120\<rparr>) = Fin 180
   \<and> taps (handleTap 1000 \<lparr>taps = [1000], bpm = Fin 120\<rparr>) = [1000, 1000]
   \<and> bpm (handleTap 1000 \<lparr>taps = [1000], bpm = Fin 120\<rparr>) = PosInfinity
   \<and> taps (handleTap 4000 \<lparr>taps = [0], bpm = Fin 120\<rparr>) = [4000]
   \<and> bpm (handleTap 4000 \<lparr>taps = [0], bpm = Fin 120\<rparr>) = Fin 120"
proof -
  have h1: "\<forall>t \<in> set (taps \<lparr>taps = [0, 500, 500], bpm = Fin 120\<rparr> @ [1000]). 0 \<le> t \<and> t \<le> 2 ^ 53"
    by simp
  have h2: "\<forall>t \<in> set (taps \<lparr>taps = [0], bpm = Fin 120\<rparr> @ [4000]). 0 \<le> t \<and> t \<le> 2 ^ 53"
    by simp
  have h3: "\<forall>t \<in> set (taps \<lparr>taps = [1000], bpm = Fin 120\<rparr> @ [1000]). 0 \<le> t \<and> t \<le> 2 ^ 53"
    by simp
  have w1: "taps (handleTap 1000 \<lparr>taps = [0, 500, 500], bpm = Fin 120\<rparr>) = [0, 500, 500, 1000]"
    by (simp add: handleTap_def Let_def)
  have w2: "taps (handleTap 4000 \<lparr>taps = [0], bpm = Fin 120\<rparr>) = [4000]"
    by (simp add: handleTap_def)
  have w3: "taps (handleTap 1000 \<lparr>taps = [1000], bpm = Fin 120\<rparr>) = [1000, 1000]"
    by (simp add: handleTap_def Let_def)
  from handleTap_mean_interval [OF h1] w1
  have a: "\<exists>b. bpm (handleTap 1000 \<lparr>taps = [0, 500, 500], bpm = Fin 120\<rparr>) = Fin b"
    by simp
  from handleTap_mean_interval [OF h2] w2
  have b: "bpm (handleTap 4000 \<lparr>taps = [0], bpm = Fin 120\<rparr>) = Fin 120"
    by simp
  from handleTap_mean_interval [OF h3] w3
  have i: "bpm (handleTap 1000 \<lparr>taps = [1000], bpm = Fin 120\<rparr>) = PosInfinity"
    by simp
  have c: "bpm (handleTap 1000 \<lparr>taps = [0, 500, 500], bpm = Fin 120\<rparr>) = Fin 180"
    by (simp add: handleTap_def tapIntervals_def avgInterval_def
        bpmOfInterval_def js_div_def math_round_def js_round_def upt_rec)
  from a b c i w1 w2 w3 show ?thesis by simp
qed

section \<open>Properties of the note mapper\<close>

lemma indexOf_member:
  "x \<in> set xs \<Longrightarrow> 0 \<le> indexOf xs x \<and> indexOf xs x < int (length xs) \<and> xs ! nat (indexOf xs x) = x"
proof (induction xs)
  case Nil
  then show ?case by simp
next
  case (Cons y ys)
  show ?case
  proof (cases "y = x")
    case True
    then show ?thesis by simp
  next
    case False
    with Cons.prems have "x \<in> set ys" by simp
    from Cons.IH [OF this] show ?thesis using False
      by (simp add: Let_def nat_add_distrib)
  qed
qed

lemma js_round_of_int: "js_round (real_of_int n) = n"
  unfolding js_round_def by linarith

lemma semitones_of_frequency:
  "12 * (ln (440 * 2 powr ((real_of_int n - 69) / 12) / 440) / ln 2) = real_of_int (n - 69)"
  by (simp add: ln_powr)

lemma noteFromPitch_frequencyFromNoteNumber:
  "noteFromPitch (frequencyFromNoteNumber n) = n"
  unfolding noteFromPitch_def frequencyFromNoteNumber_def
  by (simp only: semitones_of_frequency js_round_of_int diff_add_cancel)

lemma centsOff_exact: "centsOffFromPitch (frequencyFromNoteNumber n) n = 0"
  by (simp add: centsOffFromPitch_def frequencyFromNoteNumber_def)

lemma frequency_positive: "0 < frequencyFromNoteNumber n"
  by (simp add: frequencyFromNoteNumber_def)

lemma length_NOTES: "length NOTES = 12"
  by (simp add: NOTES_def)

lemma midi_split:
  assumes "0 \<le> (k::int)" "k < 12"
  shows "((oct + 1) * 12 + k) mod 12 = k" "((oct + 1) * 12 + k) div 12 - 1 = oct"
proof -
  have "((oct + 1) * 12 + k) mod 12 = k mod 12" by (rule mod_mult_self3)
  then show "((oct + 1) * 12 + k) mod 12 = k" using assms by simp
  have "((oct + 1) * 12 + k) div 12 = (oct + 1) + k div 12" by (rule div_mult_self3) simp
  then show "((oct + 1) * 12 + k) div 12 - 1 = oct" using assms by simp
qed

text \<open>
  C2. For each of the twelve names in \<open>NOTES\<close> and each octave in \<open>OCTAVES\<close>, the
  frequency the note to Hz effect computes, \<open>440 * 2 powr ((midi - 69) / 12)\<close> with
  \<open>midi = (octave + 1) * 12 + index\<close>, is mapped back by the Hz to note effect to the same
  name and the same octave, with 0 cents. (Numbers are exact reals here; the
  frequency is the one computed, before \<open>toFixed(2)\<close> shortens it for display.)
\<close>

theorem note_hz_roundtrip:
  assumes "selectedNote \<in> set NOTES" and "oct \<in> set OCTAVES"
  shows "\<exists>f. noteToHz selectedNote oct = Some f
            \<and> hzToNote f = Some \<lparr>noteName = Some selectedNote, octave = oct, cents = 0\<rparr>"
proof -
  define k where "k = indexOf NOTES selectedNote"
  define midi where "midi = (oct + 1) * 12 + k"
  have k: "0 \<le> k" "k < 12" "NOTES ! nat k = selectedNote"
    using indexOf_member [OF assms(1)] by (simp_all add: k_def length_NOTES)
  have o: "0 \<le> oct" "oct \<le> 8" using assms(2) by (auto simp: OCTAVES_def)
  have to: "noteToHz selectedNote oct = Some (frequencyFromNoteNumber midi)"
    using k by (simp add: noteToHz_def Let_def k_def [symmetric] midi_def frequencyFromNoteNumber_def)
  have midi0: "0 \<le> midi" using k o by (simp add: midi_def)
  have "midi mod 12 = k" unfolding midi_def using k(1,2) by (rule midi_split)
  then have r: "js_rem midi 12 = k" using midi0 k
    by (cases "midi = 0") (simp_all add: js_rem_def)
  have d: "midi div 12 - 1 = oct" unfolding midi_def using k(1,2) by (rule midi_split)
  have n: "at_index NOTES k = Some selectedNote"
    using k by (simp add: at_index_def length_NOTES)
  have "hzToNote (frequencyFromNoteNumber midi)
          = Some \<lparr>noteName = Some selectedNote, octave = oct, cents = 0\<rparr>"
    by (simp add: hzToNote_def frequency_positive noteFromPitch_frequencyFromNoteNumber
        centsOff_exact r d n)
  with to show ?thesis by blast
qed

theorem note_hz_roundtrip_witness:
  "''A'' \<in> set NOTES \<and> 4 \<in> set OCTAVES
   \<and> noteToHz ''A'' 4 = Some 440
   \<and> hzToNote 440 = Some \<lparr>noteName = Some ''A'', octave = 4, cents = 0\<rparr>"
proof -
  have a: "''A'' \<in> set NOTES" by (simp add: NOTES_def)
  have b: "4 \<in> set OCTAVES" by (simp add: OCTAVES_def)
  have "indexOf NOTES ''A'' = 9" by (simp add: NOTES_def)
  then have c: "noteToHz ''A'' 4 = Some 440" by (simp add: noteToHz_def)
  from note_hz_roundtrip [OF a b] c a b show ?thesis by auto
qed

section \<open>Properties of the pitch estimator\<close>

subsection \<open>The descending-skip loop\<close>

lemma js_greater_in_range:
  "js_greater (at_index c (int d)) (at_index c (int d + 1))
     = (d + 1 < length c \<and> c ! (d + 1) < c ! d)"
  by (auto simp: js_greater_def at_index_def nat_add_distrib)

lemma skipDescending_le: "skipDescending c d \<le> max d (length c - 1)"
proof (induction c d rule: skipDescending.induct)
  case (1 c d)
  show ?case
  proof (cases "js_greater (at_index c (int d)) (at_index c (int d + 1))")
    case True
    then have "d + 1 < length c" by (simp add: js_greater_in_range)
    with 1 [OF True] True show ?thesis by (subst skipDescending.simps) simp
  next
    case False
    then show ?thesis by (subst skipDescending.simps) simp
  qed
qed

lemma length_autocorrelate: "length (autocorrelate xs) = length xs"
  by (simp add: autocorrelate_def)

lemma length_js_slice: "length (js_slice xs a b) \<le> length xs"
proof -
  have "length (take n (drop k xs)) \<le> length xs" for n k by simp
  then show ?thesis unfolding js_slice_def Let_def .
qed

lemma skipDescending_stops:
  "\<not> js_greater (at_index c (int (skipDescending c d))) (at_index c (int (skipDescending c d) + 1))"
proof (induction c d rule: skipDescending.induct)
  case (1 c d)
  show ?case
  proof (cases "js_greater (at_index c (int d)) (at_index c (int d + 1))")
    case True
    then have "skipDescending c d = skipDescending c (d + 1)"
      by (subst skipDescending.simps) simp
    with 1 [OF True] show ?thesis by simp
  next
    case False
    then have "skipDescending c d = d" by (subst skipDescending.simps) simp
    with False show ?thesis by simp
  qed
qed

lemma skipDescending_descends:
  "d \<le> i \<Longrightarrow> i < skipDescending c d \<Longrightarrow> i + 1 < length c \<and> c ! (i + 1) < c ! i"
proof (induction c d rule: skipDescending.induct)
  case (1 c d)
  show ?case
  proof (cases "js_greater (at_index c (int d)) (at_index c (int d + 1))")
    case True
    then have eq: "skipDescending c d = skipDescending c (d + 1)"
      by (subst skipDescending.simps) simp
    show ?thesis
    proof (cases "i = d")
      case True
      with \<open>js_greater (at_index c (int d)) (at_index c (int d + 1))\<close>
      show ?thesis by (simp add: js_greater_in_range)
    next
      case False
      with "1.prems" have "d + 1 \<le> i" by simp
      from "1.IH" [OF True this] "1.prems"(2) eq show ?thesis by simp
    qed
  next
    case False
    then have "skipDescending c d = d" by (subst skipDescending.simps) simp
    with "1.prems" show ?thesis by simp
  qed
qed

text \<open>
  C9. Every loop of \<open>getPitch\<close> ends. The two trimming loops and the skip loop are the
  recursive functions \<open>findR1\<close>, \<open>findR2\<close> and \<open>skipDescending\<close>, each defined with
  its termination proof; the other loops run over a fixed range of indices. The skip loop
  has no bound check of its own: it ends because a read past the end of \<open>c\<close> is
  \<open>undefined\<close> and the comparison with it is false. So the lag index it leaves is at
  most the last index of the correlation array (0 when the array is empty), and the array
  is no longer than the frame.
\<close>

theorem skipDescending_bounded:
  "skipDescending (correlation buf) 0 \<le> length (correlation buf) - 1
   \<and> length (correlation buf) \<le> length buf"
  using skipDescending_le [of "correlation buf" 0]
  by (simp add: correlation_def length_autocorrelate trimFrame_def length_js_slice)

subsection \<open>Trimming\<close>

lemma sumSquares_fold_ge: "(k::real) \<le> fold (\<lambda>val rms. rms + val * val) buf k"
proof (induction buf arbitrary: k)
  case Nil
  show ?case by simp
next
  case (Cons x xs)
  have "k \<le> k + x * x" by simp
  also have "\<dots> \<le> fold (\<lambda>val rms. rms + val * val) xs (k + x * x)" by (rule Cons)
  finally show ?case by simp
qed

lemma sumSquares_nonneg: "0 \<le> sumSquares buf"
  unfolding sumSquares_def by (rule sumSquares_fold_ge)

lemma sqrt_less_hundredth: "0 \<le> q \<Longrightarrow> (sqrt q < 1 / 100) = (q < 1 / 10000)"
proof -
  have e: "sqrt (1 / 10000) = 1 / 100"
    by (rule real_sqrt_unique) (simp_all add: power2_eq_square)
  have "(sqrt q < sqrt (1 / 10000)) = (q < 1 / 10000)" by (rule real_sqrt_less_iff)
  then show ?thesis by (simp only: e)
qed

lemma signal_too_low_iff:
  "js_less (rmsOf buf) (1 / 100)
     = (buf \<noteq> [] \<and> sumSquares buf / real (length buf) < 1 / 10000)"
proof (cases "buf = []")
  case True
  then show ?thesis by (simp add: rmsOf_def sumSquares_def js_div_def js_less_def)
next
  case False
  then have q: "0 \<le> sumSquares buf / real (length buf)"
    using sumSquares_nonneg [of buf] by simp
  then have "rmsOf buf = Fin (sqrt (sumSquares buf / real (length buf)))"
    using False by (simp add: rmsOf_def js_div_def)
  then show ?thesis using False
    by (simp only: js_less_def jsnumber.case sqrt_less_hundredth [OF q] simp_thms)
qed









subsection \<open>The sign of the result\<close>

lemma findPeak_upto:
  "fold (peakStep c) [d..<n] (- 1, - 1) = (mv, mp) \<Longrightarrow>
     (mp = - 1 \<and> mv = - 1 \<and> (\<forall>i. d \<le> i \<and> i < n \<longrightarrow> c ! i \<le> - 1))
   \<or> (\<exists>p. mp = int p \<and> d \<le> p \<and> p < n \<and> mv = c ! p \<and> - 1 < c ! p
          \<and> (\<forall>i. d \<le> i \<and> i < p \<longrightarrow> c ! i < c ! p)
          \<and> (\<forall>i. p < i \<and> i < n \<longrightarrow> c ! i \<le> c ! p))"
proof (induction n arbitrary: mv mp)
  case 0
  then show ?case by simp
next
  case (Suc n)
  show ?case
  proof (cases "d \<le> n")
    case False
    with Suc.prems show ?thesis by simp
  next
    case True
    obtain mv' mp' where prev: "fold (peakStep c) [d..<n] (- 1, - 1) = (mv', mp')"
      by (cases "fold (peakStep c) [d..<n] (- 1, - 1)")
    from Suc.prems True prev have step: "peakStep c n (mv', mp') = (mv, mp)" by simp
    note ih = Suc.IH [OF prev]
    show ?thesis
    proof (cases "mv' < c ! n")
      case grow: True
      with step have new: "mv = c ! n" "mp = int n" by (simp_all add: peakStep_def)
      have below: "(\<forall>i. d \<le> i \<and> i < n \<longrightarrow> c ! i \<le> mv') \<and> - 1 \<le> mv'"
        using ih
      proof
        assume "mp' = - 1 \<and> mv' = - 1 \<and> (\<forall>i. d \<le> i \<and> i < n \<longrightarrow> c ! i \<le> - 1)"
        then show ?thesis by simp
      next
        assume "\<exists>p. mp' = int p \<and> d \<le> p \<and> p < n \<and> mv' = c ! p \<and> - 1 < c ! p
          \<and> (\<forall>i. d \<le> i \<and> i < p \<longrightarrow> c ! i < c ! p)
          \<and> (\<forall>i. p < i \<and> i < n \<longrightarrow> c ! i \<le> c ! p)"
        then obtain p where p: "mv' = c ! p" "- 1 < c ! p"
          "\<forall>i. d \<le> i \<and> i < p \<longrightarrow> c ! i < c ! p"
          "\<forall>i. p < i \<and> i < n \<longrightarrow> c ! i \<le> c ! p" by blast
        have "c ! i \<le> c ! p" if "d \<le> i" "i < n" for i
          using that p(3,4) by (cases i p rule: linorder_cases) (auto simp: less_imp_le)
        then show ?thesis using p(1,2) by simp
      qed
      then show ?thesis using grow new True by (intro disjI2 exI [of _ n]) auto
    next
      case keep: False
      with step have same: "mv = mv'" "mp = mp'" by (simp_all add: peakStep_def)
      from ih show ?thesis
      proof
        assume "mp' = - 1 \<and> mv' = - 1 \<and> (\<forall>i. d \<le> i \<and> i < n \<longrightarrow> c ! i \<le> - 1)"
        then show ?thesis using keep same by (auto simp: less_Suc_eq)
      next
        assume "\<exists>p. mp' = int p \<and> d \<le> p \<and> p < n \<and> mv' = c ! p \<and> - 1 < c ! p
          \<and> (\<forall>i. d \<le> i \<and> i < p \<longrightarrow> c ! i < c ! p)
          \<and> (\<forall>i. p < i \<and> i < n \<longrightarrow> c ! i \<le> c ! p)"
        then obtain p where p: "mp' = int p" "d \<le> p" "p < n" "mv' = c ! p" "- 1 < c ! p"
          "\<forall>i. d \<le> i \<and> i < p \<longrightarrow> c ! i < c ! p"
          "\<forall>i. p < i \<and> i < n \<longrightarrow> c ! i \<le> c ! p" by blast
        then show ?thesis using keep same
          by (intro disjI2 exI [of _ p]) (auto simp: less_Suc_eq)
      qed
    qed
  qed
qed

lemma shift_le_half:
  fixes a b :: real
  assumes "a < 0" "a \<le> b"
  shows "b / (2 * a) \<le> 1 / 2"
proof -
  have "2 * a < 0" using assms(1) by simp
  then have "(b / (2 * a) \<le> 1 / 2) = (1 / 2 * (2 * a) \<le> b)"
    by (rule neg_divide_le_eq)
  then show ?thesis using assms(2) by simp
qed

lemma shift_edge:
  fixes a b :: real
  assumes "0 < a" "b = - a"
  shows "b / (2 * a) = - (1 / 2)"
  using assms by (simp add: field_simps)

lemma refinePeriod_cases:
  "refinePeriod c T0 = real_of_int T0
   \<or> (\<exists>x1 x2 x3. at_index c (T0 - 1) = Some x1 \<and> at_index c T0 = Some x2
         \<and> at_index c (T0 + 1) = Some x3 \<and> (x1 + x3 - 2 * x2) / 2 \<noteq> 0
         \<and> refinePeriod c T0
             = real_of_int T0 - (x3 - x1) / 2 / (2 * ((x1 + x3 - 2 * x2) / 2)))"
  by (auto simp: refinePeriod_def Let_def split: option.splits)

lemma refinePeriod_lower:
  assumes peak: "findPeak c d = (mv, int q)" and d: "d = skipDescending c 0" and q: "1 \<le> q"
  shows "real q - 1 / 2 \<le> refinePeriod c (int q)"
proof -
  from peak have "fold (peakStep c) [d..<length c] (- 1, - 1) = (mv, int q)"
    by (simp add: findPeak_def)
  from findPeak_upto [OF this]
  have f: "d \<le> q" "q < length c" "\<forall>i. d \<le> i \<and> i < q \<longrightarrow> c ! i < c ! q"
    "\<forall>i. q < i \<and> i < length c \<longrightarrow> c ! i \<le> c ! q"
    by auto
  from refinePeriod_cases [of c "int q"] show ?thesis
  proof
    assume "refinePeriod c (int q) = real_of_int (int q)"
    then show ?thesis by simp
  next
    assume "\<exists>x1 x2 x3. at_index c (int q - 1) = Some x1 \<and> at_index c (int q) = Some x2
         \<and> at_index c (int q + 1) = Some x3 \<and> (x1 + x3 - 2 * x2) / 2 \<noteq> 0
         \<and> refinePeriod c (int q)
             = real_of_int (int q) - (x3 - x1) / 2 / (2 * ((x1 + x3 - 2 * x2) / 2))"
    then obtain x1 x2 x3 where x: "at_index c (int q - 1) = Some x1"
      "at_index c (int q) = Some x2" "at_index c (int q + 1) = Some x3"
      "(x1 + x3 - 2 * x2) / 2 \<noteq> 0"
      and r: "refinePeriod c (int q)
             = real_of_int (int q) - (x3 - x1) / 2 / (2 * ((x1 + x3 - 2 * x2) / 2))"
      by blast
    from x(3) have q1: "q + 1 < length c" and x3: "x3 = c ! (q + 1)"
      by (auto simp: at_index_def nat_add_distrib split: if_splits)
    from x(2) have x2: "x2 = c ! q" by (auto simp: at_index_def split: if_splits)
    from x(1) q have x1: "x1 = c ! (q - 1)"
      by (auto simp: at_index_def nat_diff_distrib split: if_splits)
    have le32: "x3 \<le> x2" using f(4) q1 by (simp add: x2 x3)
    have "(x3 - x1) / 2 / (2 * ((x1 + x3 - 2 * x2) / 2)) \<le> 1 / 2"
    proof (cases "d < q")
      case True
      then have "c ! (q - 1) < c ! q" using f(3) q by simp
      then have "x1 < x2" by (simp add: x1 x2)
      with le32 x(4) have "(x1 + x3 - 2 * x2) / 2 < 0" by simp
      moreover have "(x1 + x3 - 2 * x2) / 2 \<le> (x3 - x1) / 2" using \<open>x1 < x2\<close> by simp
      ultimately show ?thesis by (rule shift_le_half)
    next
      case False
      with f(1) have dq: "d = q" by simp
      have "q - 1 < skipDescending c 0" using q dq d by simp
      from skipDescending_descends [OF _ this] q have "c ! q < c ! (q - 1)" by simp
      then have gt: "x2 < x1" by (simp add: x1 x2)
      have "\<not> js_greater (at_index c (int q)) (at_index c (int q + 1))"
        using skipDescending_stops [of c 0] d dq by simp
      then have "x2 \<le> x3" using q1 by (simp add: js_greater_in_range x2 x3)
      with le32 have eq: "x3 = x2" by simp
      have "(x3 - x1) / 2 / (2 * ((x1 + x3 - 2 * x2) / 2)) = - (1 / 2)"
        by (rule shift_edge) (use gt eq in \<open>simp_all add: field_simps\<close>)
      then show ?thesis by simp
    qed
    then show ?thesis by (simp add: r)
  qed
qed

text \<open>
  C5, as the claim states it, fails: \<open>getPitch\<close> divides by \<open>T0\<close> unguarded. In the
  frame 0.5, 0, 0, 0, 0, 0.5 the trimmed slice is all zero, the correlation is flat, the
  peak is found at lag 0 and the result is \<open>44100 / 0\<close>, which is \<open>Infinity\<close>. In the
  frame 1, -1, 1 no correlation value after the skip exceeds the starting \<open>maxval = -1\<close>,
  \<open>maxpos\<close> stays -1 and the result is -44100: negative, and not the sentinel.
\<close>

theorem getPitch_unguarded:
  "getPitch [1/2, 0, 0, 0, 0, 1/2] 44100 = PosInfinity
   \<and> getPitch [1, - 1, 1] 44100 = Fin (- 44100)"
proof -
  have "trimFrame [1/2, 0, 0, 0, 0, 1/2] = [0, 0, 0]"
    by (simp add: trimFrame_def findR1.simps findR2.simps thres_def js_slice_def)
  then have c: "correlation [1/2, 0, 0, 0, 0, 1/2] = [0, 0, 0]"
    by (simp add: correlation_def autocorrelate_def upt_conv_Cons)
  have "skipDescending [0, 0, 0] 0 = 0"
    by (simp add: skipDescending.simps js_greater_def at_index_def)
  then have p: "peakLag [1/2, 0, 0, 0, 0, 1/2] = 0"
    by (simp add: peakLag_def c findPeak_def peakStep_def upt_conv_Cons)
  have low: "\<not> js_less (rmsOf [1/2, 0, 0, 0, 0, 1/2]) (1 / 100)"
    by (simp add: signal_too_low_iff sumSquares_def)
  have first: "getPitch [1/2, 0, 0, 0, 0, 1/2] 44100 = PosInfinity"
    by (simp add: getPitch_def low c p refinePeriod_def at_index_def js_div_def)
  have "trimFrame [1, - 1, 1] = [1, - 1]"
    by (simp add: trimFrame_def findR1.simps findR2.simps thres_def js_slice_def)
  then have c': "correlation [1, - 1, 1] = [2, - 1]"
    by (simp add: correlation_def autocorrelate_def upt_conv_Cons)
  have "skipDescending [2, - 1] 0 = 1"
    by (simp add: skipDescending.simps js_greater_def at_index_def)
  then have p': "peakLag [1, - 1, 1] = - 1"
    by (simp add: peakLag_def c' findPeak_def peakStep_def upt_conv_Cons)
  have low': "\<not> js_less (rmsOf [1, - 1, 1]) (1 / 100)"
    by (simp add: signal_too_low_iff sumSquares_def)
  have "getPitch [1, - 1, 1] 44100 = Fin (- 44100)"
    by (simp add: getPitch_def low' c' p' refinePeriod_def at_index_def js_div_def)
  with first show ?thesis by simp
qed

lemma getPitch_pitchResult:
  "getPitch buf sampleRate
     = pitchResult (js_less (rmsOf buf) (1 / 100)) (correlation buf) sampleRate"
  by (simp add: getPitch_def pitchResult_def peakLag_def maxposOf_def Let_def)

lemma maxposOf_range: "maxposOf c = - 1 \<or> 0 \<le> maxposOf c"
proof -
  obtain mv mp where f: "findPeak c (skipDescending c 0) = (mv, mp)"
    by (cases "findPeak c (skipDescending c 0)")
  then have "fold (peakStep c) [skipDescending c 0..<length c] (- 1, - 1) = (mv, mp)"
    by (simp add: findPeak_def)
  from findPeak_upto [OF this] have "mp = - 1 \<or> 0 \<le> mp" by auto
  then show ?thesis by (simp add: maxposOf_def f)
qed

lemma refinePeriod_unrefined: "T0 \<le> 0 \<Longrightarrow> refinePeriod c T0 = real_of_int T0"
  by (simp add: refinePeriod_def at_index_def)

lemma refinePeriod_positive:
  assumes "1 \<le> maxposOf c"
  shows "0 < refinePeriod c (maxposOf c)"
proof -
  define d where "d = skipDescending c 0"
  obtain mv where peak: "findPeak c d = (mv, maxposOf c)"
    by (cases "findPeak c d") (simp add: maxposOf_def d_def)
  define q where "q = nat (maxposOf c)"
  have q: "maxposOf c = int q" "1 \<le> q" using assms by (simp_all add: q_def)
  have "real q - 1 / 2 \<le> refinePeriod c (int q)"
    using peak d_def q(2) unfolding q(1) by (rule refinePeriod_lower)
  then show ?thesis using q by simp
qed

text \<open>
  C5, amended. Let \<open>c\<close> be the array the code has filled, its entries at most \<open>2^1000\<close> in
  absolute value (sums of products of single-precision samples stay far below), \<open>tooLow\<close>
  the outcome of the test \<open>rms < 0.01\<close>, and the sample rate at least 1 and below \<open>2^128\<close>.
  The result is the sentinel -1 when \<open>tooLow\<close> holds. Otherwise it is a strictly positive
  finite frequency when the peak search ends with \<open>maxpos\<close> at least 1 (the parabolic step
  moves the period by at most half a sample towards 0), it is \<open>Infinity\<close> when \<open>maxpos\<close>
  is 0, and it is \<open>-sampleRate\<close> when \<open>maxpos\<close> is still -1. No other value of \<open>maxpos\<close>
  occurs.
\<close>

theorem pitchResult_cases:
  assumes "1 \<le> sampleRate" and "sampleRate < 2 ^ 128"
    and "\<forall>x \<in> set c. \<bar>x\<bar> \<le> 2 ^ 1000"
  shows "(tooLow \<longrightarrow> pitchResult tooLow c sampleRate = Fin (- 1))
       \<and> (\<not> tooLow \<and> 1 \<le> maxposOf c \<longrightarrow>
            (\<exists>f. 0 < f \<and> pitchResult tooLow c sampleRate = Fin f))
       \<and> (\<not> tooLow \<and> maxposOf c = 0 \<longrightarrow> pitchResult tooLow c sampleRate = PosInfinity)
       \<and> (\<not> tooLow \<and> maxposOf c = - 1 \<longrightarrow>
            pitchResult tooLow c sampleRate = Fin (- sampleRate))
       \<and> (maxposOf c = - 1 \<or> 0 \<le> maxposOf c)"
proof (intro conjI impI)
  show "pitchResult tooLow c sampleRate = Fin (- 1)" if tooLow
    using that by (simp add: pitchResult_def)
  show "\<exists>f. 0 < f \<and> pitchResult tooLow c sampleRate = Fin f"
    if "\<not> tooLow \<and> 1 \<le> maxposOf c"
  proof -
    from that have pos: "0 < refinePeriod c (maxposOf c)" by (simp add: refinePeriod_positive)
    then have "pitchResult tooLow c sampleRate = Fin (sampleRate / refinePeriod c (maxposOf c))"
      using that by (simp add: pitchResult_def js_div_def)
    moreover have "0 < sampleRate / refinePeriod c (maxposOf c)" using pos assms(1) by simp
    ultimately show ?thesis by blast
  qed
  show "pitchResult tooLow c sampleRate = PosInfinity" if "\<not> tooLow \<and> maxposOf c = 0"
    using that assms(1) by (simp add: pitchResult_def refinePeriod_unrefined js_div_def)
  show "pitchResult tooLow c sampleRate = Fin (- sampleRate)"
    if "\<not> tooLow \<and> maxposOf c = - 1"
    using that by (simp add: pitchResult_def refinePeriod_unrefined js_div_def)
  show "maxposOf c = - 1 \<or> 0 \<le> maxposOf c" by (rule maxposOf_range)
qed

theorem pitchResult_cases_witness:
  "(1::real) \<le> 44100 \<and> (44100::real) < 2 ^ 128
   \<and> js_less (rmsOf [0, 0, 0, 0]) (1 / 100)
   \<and> getPitch [0, 0, 0, 0] 44100 = Fin (- 1)
   \<and> maxposOf [5/4, 1, 3/4, 1/2, 1/4] = 4
   \<and> (\<exists>f. 0 < f \<and> pitchResult False [5/4, 1, 3/4, 1/2, 1/4] 44100 = Fin f)
   \<and> maxposOf [0, 0, 0] = 0
   \<and> pitchResult False [0, 0, 0] 44100 = PosInfinity
   \<and> maxposOf [7/2, 5/4, 1/2, - 1, - 1, - 1] = - 1
   \<and> pitchResult False [7/2, 5/4, 1/2, - 1, - 1, - 1] 44100 = Fin (- 44100)"
proof -
  have r: "(1::real) \<le> 44100" "(44100::real) < 2 ^ 128" by simp_all
  have low: "js_less (rmsOf [0, 0, 0, 0]) (1 / 100)"
    by (simp add: signal_too_low_iff sumSquares_def)
  have b0: "\<forall>x \<in> set (correlation [0, 0, 0, 0]). \<bar>x\<bar> \<le> 2 ^ 1000"
    by (simp add: correlation_def trimFrame_def findR1.simps findR2.simps thres_def
        js_slice_def autocorrelate_def upt_conv_Cons)
  have s: "getPitch [0, 0, 0, 0] 44100 = Fin (- 1)"
    using pitchResult_cases [OF r b0, of "js_less (rmsOf [0, 0, 0, 0]) (1 / 100)"] low
    by (simp add: getPitch_pitchResult)
  have d1: "skipDescending [5/4, 1, 3/4, 1/2, 1/4] 0 = 4"
    by (simp add: skipDescending.simps js_greater_def at_index_def)
  have m1: "maxposOf [5/4, 1, 3/4, 1/2, 1/4] = 4"
    by (simp add: maxposOf_def d1 findPeak_def peakStep_def upt_conv_Cons)
  have b1: "\<forall>x \<in> set [5/4, 1, 3/4, 1/2, 1/4 :: real]. \<bar>x\<bar> \<le> 2 ^ 1000" by simp
  have p1: "\<exists>f. 0 < f \<and> pitchResult False [5/4, 1, 3/4, 1/2, 1/4] 44100 = Fin f"
    using pitchResult_cases [OF r b1, of False] m1 by simp
  have d2: "skipDescending [0, 0, 0] 0 = 0"
    by (simp add: skipDescending.simps js_greater_def at_index_def)
  have m2: "maxposOf [0, 0, 0] = 0"
    by (simp add: maxposOf_def d2 findPeak_def peakStep_def upt_conv_Cons)
  have b2: "\<forall>x \<in> set [0, 0, 0 :: real]. \<bar>x\<bar> \<le> 2 ^ 1000" by simp
  have p2: "pitchResult False [0, 0, 0] 44100 = PosInfinity"
    using pitchResult_cases [OF r b2, of False] m2 by simp
  have d3: "skipDescending [7/2, 5/4, 1/2, - 1, - 1, - 1] 0 = 3"
    by (simp add: skipDescending.simps js_greater_def at_index_def)
  have m3: "maxposOf [7/2, 5/4, 1/2, - 1, - 1, - 1] = - 1"
    by (simp add: maxposOf_def d3 findPeak_def peakStep_def upt_conv_Cons)
  have b3: "\<forall>x \<in> set [7/2, 5/4, 1/2, - 1, - 1, - 1 :: real]. \<bar>x\<bar> \<le> 2 ^ 1000" by simp
  have p3: "pitchResult False [7/2, 5/4, 1/2, - 1, - 1, - 1] 44100 = Fin (- 44100)"
    using pitchResult_cases [OF r b3, of False] m3 by simp
  from r low s m1 p1 m2 p2 m3 p3 show ?thesis by simp
qed

end
